theory Spec2Isabelle
  imports Complex_Main "HOL-Library.Word"
begin

section \<open>The progress bar of libmain: data model\<close>

text \<open>
  The development embeds \<^verbatim>\<open>src/libmain/progress-bar.cc\<close>.  The class \<^verbatim>\<open>ProgressBar\<close>
  keeps, behind one lock, a list of open activities, a flat index from activity ids to
  list iterators and, per activity type, a second index together with cumulative counters.

  Conventions of the embedding:
  \<^item> \<^verbatim>\<open>uint64_t\<close> counters are \<open>64 word\<close>: \<open>+\<close> and \<open>-\<close> wrap around, \<open>\<le>\<close> is unsigned.
  \<^item> \<^verbatim>\<open>ActivityId\<close> is only ever compared (with other ids and with \<open>0\<close>); it is \<open>nat\<close>.
  \<^item> \<^verbatim>\<open>Verbosity\<close> is only ever compared; it is \<open>nat\<close>.
  \<^item> A \<^verbatim>\<open>std::list<ActInfo>::iterator\<close> is the address of a list node.  The list
    \<^verbatim>\<open>activities\<close> is a list of (address, node) pairs in list order; addresses come from a
    counter \<open>nextNode\<close> and are never reused.  Dereferencing an address that is not in the
    list is undefined behaviour in C++ and the error \<open>InvalidIterator\<close> here.
  \<^item> A \<^verbatim>\<open>std::map\<close> keyed by activity id is an association list kept in key order, so
    that loops over it run in the order of the C++ iteration.  The map
    \<^verbatim>\<open>activitiesByType\<close> is only ever accessed with \<^verbatim>\<open>operator[]\<close> by the functions
    embedded here, which default-constructs a missing entry: it is a total function
    whose value at an untouched key is the default-constructed entry.
  \<^item> A failing \<^verbatim>\<open>assert\<close> is the error \<open>AssertionFailed\<close>.
  \<^item> The bytes written to the terminal are not part of the state.
\<close>

type_synonym ActivityId = nat
type_synonym Verbosity = nat
type_synonym node = nat

text \<open>
  The enumeration \<^verbatim>\<open>ActivityType\<close> is declared in a header that is not part of the
  sources.  The constructors are the enumerators that \<^verbatim>\<open>progress-bar.cc\<close> names;
  \<open>actOtherType\<close> stands for every enumerator it does not name.
\<close>

datatype ActivityType =
    actUnknown
  | actCopyPath
  | actFileTransfer
  | actCopyPaths
  | actBuilds
  | actBuild
  | actSubstitute
  | actQueryPathInfo
  | actPostBuildHook
  | actBuildWaiting
  | actEvaluate
  | actOtherType nat

text \<open>Likewise for \<^verbatim>\<open>ResultType\<close>.\<close>

datatype ResultType =
    resFileLinked
  | resBuildLogLine
  | resPostBuildLogLine
  | resUntrustedPath
  | resCorruptedPath
  | resSetPhase
  | resProgress
  | resSetExpected
  | resExpectBuild
  | resUnexpectBuild
  | resExpectSubstitution
  | resUnexpectSubstitution
  | resOtherType nat

text \<open>
  A \<^verbatim>\<open>Logger::Field\<close> carries a type tag and a string or an integer; \<^verbatim>\<open>getS\<close> and
  \<^verbatim>\<open>getI\<close> assert the index and the tag before reading.
\<close>

datatype Field = tString string | tInt "64 word"

datatype error = AssertionFailed | InvalidIterator

definition getS :: "Field list \<Rightarrow> nat \<Rightarrow> error + string" where
  "getS flds n =
     (if n < length flds
      then (case flds ! n of tString x \<Rightarrow> Inr x | tInt _ \<Rightarrow> Inl AssertionFailed)
      else Inl AssertionFailed)"

definition getI :: "Field list \<Rightarrow> nat \<Rightarrow> error + 64 word" where
  "getI flds n =
     (if n < length flds
      then (case flds ! n of tInt x \<Rightarrow> Inr x | tString _ \<Rightarrow> Inl AssertionFailed)
      else Inl AssertionFailed)"

record ActInfo =
  s :: string
  lastLine :: string
  phase :: "string option"
  type :: ActivityType
  "done" :: "64 word"
  expected :: "64 word"
  running :: "64 word"
  failed :: "64 word"
  expectedByType :: "(ActivityType \<times> 64 word) list"
  visible :: bool
  ignored :: bool
  parent :: ActivityId
  name :: "string option"
  startTime :: "nat option"
  buildsRemaining :: "string set"
  substitutionsRemaining :: "string set"

text \<open>
  The default member initialisers of \<^verbatim>\<open>ActInfo\<close>.  The member \<^verbatim>\<open>parent\<close> has none; every
  node gets its parent assigned in \<^verbatim>\<open>startActivity\<close> before it is read.
\<close>

definition newActInfo :: ActInfo where
  "newActInfo =
     \<lparr> s = [], lastLine = [], phase = None, type = actUnknown,
       done = 0, expected = 0, running = 0, failed = 0,
       expectedByType = [], visible = True, ignored = False, parent = 0,
       name = None, startTime = None,
       buildsRemaining = {}, substitutionsRemaining = {} \<rparr>"

record ActivitiesByType =
  its :: "(ActivityId \<times> node) list"
  "done" :: "64 word"
  expected :: "64 word"
  failed :: "64 word"

definition newActivitiesByType :: ActivitiesByType where
  "newActivitiesByType =
     \<lparr> ActivitiesByType.its = [], ActivitiesByType.done = 0,
       ActivitiesByType.expected = 0, ActivitiesByType.failed = 0 \<rparr>"

record ActivityStats =
  "done" :: "64 word"
  expected :: "64 word"
  running :: "64 word"
  failed :: "64 word"
  left :: "64 word"

datatype StatusLineGroup =
  idHelp | idEvaluate | idDownload | idCopyPaths | idBuilds | idStatus | idQuit

type_synonym LineId = "StatusLineGroup \<times> nat"

text \<open>
  The shared state.  \<open>nextNode\<close> is the allocation counter of the list nodes and
  \<open>updateCV_notified\<close> counts the calls of \<^verbatim>\<open>updateCV.notify_one()\<close>; neither is a member
  of the C++ struct.
\<close>

record State =
  activities :: "(node \<times> ActInfo) list"
  its :: "(ActivityId \<times> node) list"
  activitiesByType :: "ActivityType \<Rightarrow> ActivitiesByType"
  filesLinked :: "64 word"
  bytesLinked :: "64 word"
  corruptedPaths :: "64 word"
  untrustedPaths :: "64 word"
  active :: bool
  haveUpdate :: bool
  statusLines :: "(LineId \<times> string) list"
  prevStatusLines :: nat
  helpShown :: bool
  nextNode :: node
  updateCV_notified :: nat

text \<open>The state after the constructor's member initialisation.\<close>

definition initState :: "bool \<Rightarrow> State" where
  "initState isTTY =
     \<lparr> activities = [], State.its = [],
       activitiesByType = (\<lambda>_. newActivitiesByType),
       filesLinked = 0, bytesLinked = 0, corruptedPaths = 0, untrustedPaths = 0,
       active = isTTY, haveUpdate = True, statusLines = [], prevStatusLines = 0,
       helpShown = False, nextNode = 0, updateCV_notified = 0 \<rparr>"

subsection \<open>Maps keyed by activity id\<close>

text \<open>\<^verbatim>\<open>find\<close> is \<open>map_of\<close>; \<^verbatim>\<open>emplace\<close> inserts only when the key is absent.\<close>

definition emplace :: "ActivityId \<Rightarrow> node \<Rightarrow> (ActivityId \<times> node) list \<Rightarrow> (ActivityId \<times> node) list" where
  "emplace k v m =
     (case map_of m k of Some _ \<Rightarrow> m | None \<Rightarrow> insort_key fst (k, v) m)"

definition erase :: "ActivityId \<Rightarrow> (ActivityId \<times> node) list \<Rightarrow> (ActivityId \<times> node) list" where
  "erase k m = filter (\<lambda>kv. fst kv \<noteq> k) m"

text \<open>
  The map \<^verbatim>\<open>expectedByType\<close> of a node is keyed by activity type, whose order is not in
  the sources: new keys are appended.  The only loop over it subtracts each value from a
  counter of its own key, which does not depend on the order.
\<close>

definition lookupExpected :: "(ActivityType \<times> 64 word) list \<Rightarrow> ActivityType \<Rightarrow> 64 word" where
  "lookupExpected m k = (case map_of m k of Some v \<Rightarrow> v | None \<Rightarrow> 0)"

definition setExpected :: "ActivityType \<Rightarrow> 64 word \<Rightarrow> (ActivityType \<times> 64 word) list \<Rightarrow> (ActivityType \<times> 64 word) list" where
  "setExpected k v m =
     (case map_of m k of
        Some _ \<Rightarrow> map (\<lambda>kv. if fst kv = k then (k, v) else kv) m
      | None \<Rightarrow> m @ [(k, v)])"

subsection \<open>List nodes\<close>

definition deref :: "State \<Rightarrow> node \<Rightarrow> error + ActInfo" where
  "deref state n =
     (case map_of (activities state) n of
        None \<Rightarrow> Inl InvalidIterator
      | Some i \<Rightarrow> Inr i)"

definition setNode :: "node \<Rightarrow> ActInfo \<Rightarrow> State \<Rightarrow> State" where
  "setNode n i state =
     state\<lparr>activities := map (\<lambda>mi. if fst mi = n then (n, i) else mi) (activities state)\<rparr>"

definition eraseNode :: "node \<Rightarrow> State \<Rightarrow> State" where
  "eraseNode n state =
     state\<lparr>activities := filter (\<lambda>mi. fst mi \<noteq> n) (activities state)\<rparr>"

section \<open>Aggregation: \<^verbatim>\<open>getActivityStats\<close>\<close>

text \<open>The body of the loop over \<^verbatim>\<open>act.its\<close>, for one entry \<open>j\<close>.\<close>

definition addStats :: "ActInfo \<Rightarrow> ActivityStats \<Rightarrow> ActivityStats" where
  "addStats j stats =
     stats\<lparr> ActivityStats.done := ActivityStats.done stats + ActInfo.done j,
            ActivityStats.expected := ActivityStats.expected stats + ActInfo.expected j,
            ActivityStats.running := ActivityStats.running stats + ActInfo.running j,
            ActivityStats.failed := ActivityStats.failed stats + ActInfo.failed j,
            left := left stats +
              (if ActInfo.expected j > ActInfo.done j
               then ActInfo.expected j - ActInfo.done j else 0) \<rparr>"

fun statsLoop :: "State \<Rightarrow> (ActivityId \<times> node) list \<Rightarrow> ActivityStats \<Rightarrow> error + ActivityStats" where
  "statsLoop state [] stats = Inr stats"
| "statsLoop state (j # js) stats =
     (case deref state (snd j) of
        Inl e \<Rightarrow> Inl e
      | Inr i \<Rightarrow>
          if ignored i then statsLoop state js stats
          else statsLoop state js (addStats i stats))"

definition getActivityStats :: "State \<Rightarrow> ActivitiesByType \<Rightarrow> error + ActivityStats" where
  "getActivityStats state act =
     (case statsLoop state (ActivitiesByType.its act)
             \<lparr> ActivityStats.done = ActivitiesByType.done act,
               ActivityStats.expected = ActivitiesByType.done act,
               ActivityStats.running = 0,
               ActivityStats.failed = ActivitiesByType.failed act,
               left = 0 \<rparr> of
        Inl e \<Rightarrow> Inl e
      | Inr stats \<Rightarrow>
          Inr (stats\<lparr>ActivityStats.expected :=
                 max (ActivityStats.expected stats) (ActivitiesByType.expected act)\<rparr>))"

section \<open>Helpers declared outside the sources\<close>

text \<open>
  What the operations read from outside the file is a parameter of theirs: the globals
  \<^verbatim>\<open>verbosity\<close> and \<^verbatim>\<open>progressBarSettings.printBuildLogs\<close>, the clock, the cast
  \<^verbatim>\<open>(ActivityType) n\<close> of an integer field, the name part \<^verbatim>\<open>DrvName(name).name\<close> of a
  derivation name, and the escape sequences that the macros \<^verbatim>\<open>ANSI_BOLD\<close>,
  \<^verbatim>\<open>ANSI_NORMAL\<close>, \<^verbatim>\<open>ANSI_RED\<close>, \<^verbatim>\<open>ANSI_GREEN\<close> and \<^verbatim>\<open>ANSI_YELLOW\<close> expand to.

  The last parameter stands for undefined behaviour.  Three blocks of \<^verbatim>\<open>startActivity\<close>
  (for substitutions, post-build hooks and path-info queries) keep the \<^verbatim>\<open>string_view\<close>
  that \<^verbatim>\<open>storePathToName\<close> returns into the temporary \<^verbatim>\<open>std::string\<close> returned by
  \<^verbatim>\<open>getS\<close>, and read it after the temporary is destroyed.  \<open>freed x\<close> is what such a read
  finds where \<open>x\<close> was; nothing is assumed about it.
\<close>

record Env =
  verbosity :: Verbosity
  printBuildLogs :: bool
  now :: nat
  toActivityType :: "64 word \<Rightarrow> ActivityType"
  drvName :: "string \<Rightarrow> string"
  ANSI_BOLD :: string
  ANSI_NORMAL :: string
  ANSI_RED :: string
  ANSI_GREEN :: string
  ANSI_YELLOW :: string
  freed :: "string \<Rightarrow> string"

definition hasPrefix :: "string \<Rightarrow> string \<Rightarrow> bool" where
  "hasPrefix x prefix = (take (length prefix) x = prefix)"

definition hasSuffix :: "string \<Rightarrow> string \<Rightarrow> bool" where
  "hasSuffix x suffix =
     (length suffix \<le> length x \<and> drop (length x - length suffix) x = suffix)"

text \<open>
  Modelled from the spec: \<^verbatim>\<open>baseNameOf\<close> is declared in \<^verbatim>\<open>util.hh\<close>, which is not part of
  the sources.  The spec leaves the naming scheme to an external collaborator and does
  not word it; the definition is the meaning of the function's name: the last component
  of a slash-separated path, one trailing slash not counted.
\<close>

definition baseNameOf :: "string \<Rightarrow> string" where
  "baseNameOf path =
     (if path = [] then []
      else
        let last = length path - 1;
            last' = (if path ! last = CHR ''/'' \<and> 0 < last then last - 1 else last)
        in rev (takeWhile (\<lambda>c. c \<noteq> CHR ''/'') (rev (take (last' + 1) path))))"

text \<open>
  Modelled from the spec: \<^verbatim>\<open>chomp\<close> is declared in \<^verbatim>\<open>util.hh\<close>, which is not part of the
  sources; it removes the white space at the end of a line.
\<close>

definition chomp :: "string \<Rightarrow> string" where
  "chomp x = rev (dropWhile (\<lambda>c. c \<in> {CHR 0x20, CHR 0x0A, CHR 0x0D, CHR 0x09}) (rev x))"

text \<open>The text that \<^verbatim>\<open>fmt\<close> puts for \<^verbatim>\<open>%d\<close> with an unsigned argument.\<close>

function showDec :: "nat \<Rightarrow> string" where
  "showDec n =
     (if n < 10 then [char_of (48 + n)]
      else showDec (n div 10) @ [char_of (48 + n mod 10)])"
  by pat_completeness auto
termination
  by (relation "measure id") auto

declare showDec.simps [simp del]

definition storePathToName :: "string \<Rightarrow> string" where
  "storePathToName path =
     (let base = baseNameOf path;
          rest = dropWhile (\<lambda>c. c \<noteq> CHR ''-'') base
      in if rest = [] then take 0 base else tl rest)"

section \<open>The registry operations\<close>

definition update :: "State \<Rightarrow> State" where
  "update state =
     state\<lparr>haveUpdate := True, updateCV_notified := Suc (updateCV_notified state)\<rparr>"

text \<open>
  \<^verbatim>\<open>draw\<close> clears the dirty flag, returns if the bar is not active, and otherwise writes
  the status lines and remembers how many it wrote.
\<close>

definition draw :: "State \<Rightarrow> State" where
  "draw state =
     (let state1 = state\<lparr>haveUpdate := False\<rparr>
      in if \<not> active state1 then state1
         else state1\<lparr>prevStatusLines := length (statusLines state1)\<rparr>)"

text \<open>\<^verbatim>\<open>log(State &, Verbosity, const std::string &)\<close>: the inactive branch only writes.\<close>

definition log :: "State \<Rightarrow> State" where
  "log state = (if active state then draw state else state)"

text \<open>
  The status lines are a \<^verbatim>\<open>std::map\<close> keyed by group and sequence number: an association
  list in key order, the groups in the order of the enumeration.
\<close>

fun groupIndex :: "StatusLineGroup \<Rightarrow> nat" where
  "groupIndex idHelp = 0"
| "groupIndex idEvaluate = 1"
| "groupIndex idDownload = 2"
| "groupIndex idCopyPaths = 3"
| "groupIndex idBuilds = 4"
| "groupIndex idStatus = 5"
| "groupIndex idQuit = 6"

definition lineLess :: "LineId \<Rightarrow> LineId \<Rightarrow> bool" where
  "lineLess k k' =
     (groupIndex (fst k) < groupIndex (fst k')
      \<or> (groupIndex (fst k) = groupIndex (fst k') \<and> snd k < snd k'))"

fun insert_or_assign :: "LineId \<Rightarrow> string \<Rightarrow> (LineId \<times> string) list \<Rightarrow> (LineId \<times> string) list" where
  "insert_or_assign k v [] = [(k, v)]"
| "insert_or_assign k v (l # ls) =
     (if fst l = k then (k, v) # ls
      else if lineLess k (fst l) then (k, v) # l # ls
      else l # insert_or_assign k v ls)"

text \<open>
  \<^verbatim>\<open>removeStatusLines\<close> starts at the first key that is not below \<open>(id, 0)\<close> and erases
  entries as long as they belong to the group.
\<close>

definition removeStatusLines :: "State \<Rightarrow> StatusLineGroup \<Rightarrow> State" where
  "removeStatusLines state g =
     state\<lparr>statusLines :=
       takeWhile (\<lambda>l. lineLess (fst l) (g, 0)) (statusLines state)
       @ dropWhile (\<lambda>l. fst (fst l) = g)
           (dropWhile (\<lambda>l. lineLess (fst l) (g, 0)) (statusLines state))\<rparr>"

definition resetHelp :: "Env \<Rightarrow> State \<Rightarrow> State" where
  "resetHelp env state =
     (let state1 = removeStatusLines state idHelp
      in state1\<lparr>statusLines :=
           insert_or_assign (idHelp, 2) []
             (insert_or_assign (idHelp, 1) (ANSI_BOLD env @ ''Type 'h' for help.'')
                (insert_or_assign (idHelp, 0) [] (statusLines state1)))\<rparr>)"

text \<open>
  The state that the constructor leaves: the member initialisation and, on a terminal,
  the help lines of \<^verbatim>\<open>resetHelp\<close>.  The redraw thread and the input thread that the
  constructor starts are not part of the embedding, apart from \<^verbatim>\<open>draw\<close>.
\<close>

definition newState :: "Env \<Rightarrow> bool \<Rightarrow> State" where
  "newState env isTTY =
     (if isTTY then resetHelp env (initState isTTY) else initState isTTY)"

text \<open>
  \<^verbatim>\<open>hasAncestor\<close> follows parent ids through the flat index.  Nothing in the function
  bounds the walk: on a cyclic parent chain that holds no node of the wanted type the
  loop does not end, which is the value \<open>None\<close>.
\<close>

partial_function (option) hasAncestor :: "State \<Rightarrow> ActivityType \<Rightarrow> ActivityId \<Rightarrow> (error + bool) option" where
  "hasAncestor state ty act =
     (if act \<noteq> 0 then
        (case map_of (State.its state) act of
           None \<Rightarrow> Some (Inr False)
         | Some n \<Rightarrow>
             (case deref state n of
                Inl e \<Rightarrow> Some (Inl e)
              | Inr i \<Rightarrow>
                  if type i = ty then Some (Inr True)
                  else hasAncestor state ty (parent i)))
      else Some (Inr False))"

declare hasAncestor.simps [code]

subsection \<open>\<^verbatim>\<open>startActivity\<close>\<close>

text \<open>
  The blocks of \<^verbatim>\<open>startActivity\<close> that fill in the node, one per activity type.  The
  block for builds copies the name into a \<^verbatim>\<open>std::string\<close> while the temporary is alive;
  the blocks for substitutions, post-build hooks and path-info queries read it through
  the dangling view.
\<close>

definition blockBuild :: "Env \<Rightarrow> ActivityType \<Rightarrow> Field list \<Rightarrow> ActInfo \<Rightarrow> error + ActInfo" where
  "blockBuild env ty flds i =
     (if ty = actBuild then
        (case getS flds 0 of Inl e \<Rightarrow> Inl e | Inr path \<Rightarrow>
           let name0 = storePathToName path;
               name1 = (if hasSuffix name0 ''.drv'' then take (length name0 - 4) name0 else name0);
               i1 = i\<lparr>s := ANSI_BOLD env @ name1 @ ANSI_NORMAL env\<rparr>
           in (case getS flds 1 of Inl e \<Rightarrow> Inl e | Inr machineName \<Rightarrow>
                 let i2 = (if machineName \<noteq> []
                           then i1\<lparr>s := s i1 @ '' on '' @ ANSI_BOLD env @ machineName @ ANSI_NORMAL env\<rparr>
                           else i1)
                 in (case getI flds 2 of Inl e \<Rightarrow> Inl e | Inr curRound \<Rightarrow>
                       (case getI flds 3 of Inl e \<Rightarrow> Inl e | Inr nrRounds \<Rightarrow>
                          let i3 = (if nrRounds \<noteq> 1
                                    then i2\<lparr>s := s i2 @ '' (round '' @ showDec (unat curRound)
                                                 @ ''/'' @ showDec (unat nrRounds) @ '')''\<rparr>
                                    else i2)
                          in Inr (i3\<lparr>name := Some (drvName env name1)\<rparr>)))))
      else Inr i)"

definition blockSubstitute :: "Env \<Rightarrow> ActivityType \<Rightarrow> Field list \<Rightarrow> ActInfo \<Rightarrow> error + ActInfo" where
  "blockSubstitute env ty flds i =
     (if ty = actSubstitute then
        (case getS flds 0 of Inl e \<Rightarrow> Inl e | Inr path \<Rightarrow>
           (case getS flds 1 of Inl e \<Rightarrow> Inl e | Inr sub \<Rightarrow>
              let name0 = freed env (storePathToName path)
              in Inr (i\<lparr>s := (if hasPrefix sub ''local''
                               then ANSI_BOLD env @ name0 @ ANSI_NORMAL env @ '' from '' @ sub
                               else ANSI_BOLD env @ name0 @ ANSI_NORMAL env @ '' from '' @ sub)\<rparr>)))
      else Inr i)"

definition blockPostBuildHook :: "Env \<Rightarrow> ActivityType \<Rightarrow> Field list \<Rightarrow> ActInfo \<Rightarrow> error + ActInfo" where
  "blockPostBuildHook env ty flds i =
     (if ty = actPostBuildHook then
        (case getS flds 0 of Inl e \<Rightarrow> Inl e | Inr path \<Rightarrow>
           let name0 = freed env (storePathToName path);
               name1 = (if hasSuffix name0 ''.drv'' then take (length name0 - 4) name0 else name0)
           in Inr (i\<lparr>s := ''post-build '' @ ANSI_BOLD env @ name1 @ ANSI_NORMAL env,
                     name := Some (drvName env name1)\<rparr>))
      else Inr i)"

definition blockQueryPathInfo :: "Env \<Rightarrow> ActivityType \<Rightarrow> Field list \<Rightarrow> ActInfo \<Rightarrow> error + ActInfo" where
  "blockQueryPathInfo env ty flds i =
     (if ty = actQueryPathInfo then
        (case getS flds 0 of Inl e \<Rightarrow> Inl e | Inr path \<Rightarrow>
           (case getS flds 1 of Inl e \<Rightarrow> Inl e | Inr store \<Rightarrow>
              Inr (i\<lparr>s := ''querying '' @ ANSI_BOLD env @ freed env (storePathToName path)
                          @ ANSI_NORMAL env @ '' on '' @ store\<rparr>)))
      else Inr i)"

text \<open>
  The block for file transfers reads the state: the new node is already in the list and
  in both indices when \<^verbatim>\<open>hasAncestor\<close> walks from its parent.  The second walk runs only
  if the first one returns false.
\<close>

definition blockFileTransfer :: "State \<Rightarrow> node \<Rightarrow> ActivityType \<Rightarrow> Field list \<Rightarrow> ActivityId \<Rightarrow> ActInfo \<Rightarrow> (error + ActInfo) option" where
  "blockFileTransfer state n ty flds par i =
     (if ty = actFileTransfer then
        (case getS flds 0 of Inl e \<Rightarrow> Some (Inl e) | Inr x \<Rightarrow>
           let i1 = i\<lparr>s := x\<rparr>; state1 = setNode n i1 state
           in (case hasAncestor state1 actCopyPath par of
                 None \<Rightarrow> None
               | Some (Inl e) \<Rightarrow> Some (Inl e)
               | Some (Inr True) \<Rightarrow> Some (Inr (i1\<lparr>ignored := True\<rparr>))
               | Some (Inr False) \<Rightarrow>
                   (case hasAncestor state1 actQueryPathInfo par of
                      None \<Rightarrow> None
                    | Some (Inl e) \<Rightarrow> Some (Inl e)
                    | Some (Inr True) \<Rightarrow> Some (Inr (i1\<lparr>ignored := True\<rparr>))
                    | Some (Inr False) \<Rightarrow> Some (Inr i1))))
      else Some (Inr i))"

definition blockVisible :: "State \<Rightarrow> ActivityType \<Rightarrow> ActivityId \<Rightarrow> ActInfo \<Rightarrow> (error + ActInfo) option" where
  "blockVisible state ty par i =
     (if ty = actFileTransfer then Some (Inr (i\<lparr>visible := False\<rparr>))
      else
        (case (if ty = actCopyPath then hasAncestor state actSubstitute par
               else Some (Inr False)) of
           None \<Rightarrow> None
         | Some (Inl e) \<Rightarrow> Some (Inl e)
         | Some (Inr True) \<Rightarrow> Some (Inr (i\<lparr>visible := False\<rparr>))
         | Some (Inr False) \<Rightarrow>
             if ty = actBuild \<or> ty = actSubstitute
             then Some (Inr (i\<lparr>visible := False\<rparr>))
             else Some (Inr i)))"

text \<open>
  \<^verbatim>\<open>emplace_back\<close> puts a fresh node at the end of the list; the two \<^verbatim>\<open>emplace\<close> calls
  index it under the id, each only if that index has no entry for the id yet.
\<close>

definition insertNode :: "ActivityId \<Rightarrow> ActivityType \<Rightarrow> ActInfo \<Rightarrow> State \<Rightarrow> State" where
  "insertNode act ty i state =
     (let n = nextNode state
      in state\<lparr> activities := activities state @ [(n, i)],
                nextNode := Suc n,
                State.its := emplace act n (State.its state),
                activitiesByType := (activitiesByType state)
                  (ty := (activitiesByType state ty)
                     \<lparr>ActivitiesByType.its :=
                        emplace act n (ActivitiesByType.its (activitiesByType state ty))\<rparr>) \<rparr>)"

definition startActivity :: "Env \<Rightarrow> State \<Rightarrow> ActivityId \<Rightarrow> Verbosity \<Rightarrow> ActivityType \<Rightarrow> string \<Rightarrow> Field list \<Rightarrow> ActivityId \<Rightarrow> (error + State) option" where
  "startActivity env state act lvl ty str flds par =
     (let state1 = (if lvl \<le> verbosity env \<and> str \<noteq> [] \<and> ty \<noteq> actBuildWaiting
                    then log state else state);
          n = nextNode state1;
          i0 = newActInfo\<lparr>s := str, type := ty, parent := par\<rparr>;
          state2 = insertNode act ty i0 state1
      in (case blockBuild env ty flds i0 of Inl e \<Rightarrow> Some (Inl e) | Inr i1 \<Rightarrow>
         (case blockSubstitute env ty flds i1 of Inl e \<Rightarrow> Some (Inl e) | Inr i2 \<Rightarrow>
         (case blockPostBuildHook env ty flds i2 of Inl e \<Rightarrow> Some (Inl e) | Inr i3 \<Rightarrow>
         (case blockQueryPathInfo env ty flds i3 of Inl e \<Rightarrow> Some (Inl e) | Inr i4 \<Rightarrow>
         (case blockFileTransfer (setNode n i4 state2) n ty flds par i4 of
            None \<Rightarrow> None | Some (Inl e) \<Rightarrow> Some (Inl e) | Some (Inr i5) \<Rightarrow>
         (case blockVisible (setNode n i5 state2) ty par i5 of
            None \<Rightarrow> None | Some (Inl e) \<Rightarrow> Some (Inl e) | Some (Inr i6) \<Rightarrow>
            let i7 = (if ty = actBuild then i6\<lparr>startTime := Some (now env)\<rparr> else i6)
            in Some (Inr (update (setNode n i7 state2))))))))))"

subsection \<open>\<^verbatim>\<open>stopActivity\<close>\<close>

text \<open>The loop over the closed node's \<^verbatim>\<open>expectedByType\<close>.\<close>

definition retractExpected :: "(ActivityType \<times> 64 word) list \<Rightarrow> (ActivityType \<Rightarrow> ActivitiesByType) \<Rightarrow> (ActivityType \<Rightarrow> ActivitiesByType)" where
  "retractExpected ebt byType =
     fold (\<lambda>j m. m(fst j := (m (fst j))
                   \<lparr>ActivitiesByType.expected := ActivitiesByType.expected (m (fst j)) - snd j\<rparr>))
          ebt byType"

definition stopActivity :: "State \<Rightarrow> ActivityId \<Rightarrow> error + State" where
  "stopActivity state act =
     (case map_of (State.its state) act of
        None \<Rightarrow> Inr (update state)
      | Some n \<Rightarrow>
          (case deref state n of Inl e \<Rightarrow> Inl e | Inr i \<Rightarrow>
             let ty = type i;
                 byType1 =
                   (if \<not> ignored i then
                      retractExpected (expectedByType i)
                        ((activitiesByType state)
                           (ty := (activitiesByType state ty)
                              \<lparr>ActivitiesByType.done :=
                                 ActivitiesByType.done (activitiesByType state ty) + ActInfo.done i,
                               ActivitiesByType.failed :=
                                 ActivitiesByType.failed (activitiesByType state ty) + ActInfo.failed i\<rparr>))
                    else activitiesByType state);
                 byType2 = byType1
                   (ty := (byType1 ty)
                      \<lparr>ActivitiesByType.its := erase act (ActivitiesByType.its (byType1 ty))\<rparr>)
             in Inr (update
                  ((eraseNode n (state\<lparr>activitiesByType := byType2\<rparr>))
                     \<lparr>State.its := erase act (State.its state)\<rparr>))))"

subsection \<open>\<^verbatim>\<open>result\<close>\<close>

definition result :: "Env \<Rightarrow> State \<Rightarrow> ActivityId \<Rightarrow> ResultType \<Rightarrow> Field list \<Rightarrow> error + State" where
  "result env state act rty flds =
     (case map_of (State.its state) act of
        None \<Rightarrow> Inl AssertionFailed
      | Some n \<Rightarrow>
     (case deref state n of Inl e \<Rightarrow> Inl e | Inr actInfo \<Rightarrow>
        if rty = resFileLinked then
          (case getI flds 0 of Inl e \<Rightarrow> Inl e | Inr bytes \<Rightarrow>
             Inr (update (state\<lparr>filesLinked := filesLinked state + 1,
                                 bytesLinked := bytesLinked state + bytes\<rparr>)))
        else if rty = resBuildLogLine \<or> rty = resPostBuildLogLine then
          (case getS flds 0 of Inl e \<Rightarrow> Inl e | Inr line \<Rightarrow>
             let lastLine' = chomp line
             in if lastLine' \<noteq> [] then
                  let state1 = setNode n (actInfo\<lparr>lastLine := lastLine'\<rparr>) state
                  in if printBuildLogs env then Inr (log state1) else Inr (update state1)
                else Inr state)
        else if rty = resUntrustedPath then
          Inr (update (state\<lparr>untrustedPaths := untrustedPaths state + 1\<rparr>))
        else if rty = resCorruptedPath then
          Inr (update (state\<lparr>corruptedPaths := corruptedPaths state + 1\<rparr>))
        else if rty = resSetPhase then
          (case getS flds 0 of Inl e \<Rightarrow> Inl e | Inr ph \<Rightarrow>
             Inr (update (setNode n (actInfo\<lparr>phase := Some ph\<rparr>) state)))
        else if rty = resProgress then
          (if \<not> ignored actInfo then
             (case getI flds 0 of Inl e \<Rightarrow> Inl e | Inr d \<Rightarrow>
             (case getI flds 1 of Inl e \<Rightarrow> Inl e | Inr ex \<Rightarrow>
             (case getI flds 2 of Inl e \<Rightarrow> Inl e | Inr r \<Rightarrow>
             (case getI flds 3 of Inl e \<Rightarrow> Inl e | Inr f \<Rightarrow>
                Inr (update (setNode n
                  (actInfo\<lparr>ActInfo.done := d, ActInfo.expected := ex,
                           ActInfo.running := r, ActInfo.failed := f\<rparr>) state))))))
           else Inr state)
        else if rty = resSetExpected then
          (if \<not> ignored actInfo then
             (case getI flds 0 of Inl e \<Rightarrow> Inl e | Inr k \<Rightarrow>
                let ty = toActivityType env k;
                    j = lookupExpected (expectedByType actInfo) ty;
                    byType1 = (activitiesByType state)
                      (ty := (activitiesByType state ty)
                         \<lparr>ActivitiesByType.expected :=
                            ActivitiesByType.expected (activitiesByType state ty) - j\<rparr>)
                in (case getI flds 1 of Inl e \<Rightarrow> Inl e | Inr j' \<Rightarrow>
                      let byType2 = byType1
                            (ty := (byType1 ty)
                               \<lparr>ActivitiesByType.expected :=
                                  ActivitiesByType.expected (byType1 ty) + j'\<rparr>)
                      in Inr (update (setNode n
                           (actInfo\<lparr>expectedByType := setExpected ty j' (expectedByType actInfo)\<rparr>)
                           (state\<lparr>activitiesByType := byType2\<rparr>)))))
           else Inr state)
        else if rty = resExpectBuild then
          (case getS flds 0 of Inl e \<Rightarrow> Inl e | Inr p \<Rightarrow>
             Inr (setNode n (actInfo\<lparr>buildsRemaining := insert p (buildsRemaining actInfo)\<rparr>) state))
        else if rty = resUnexpectBuild then
          (case getS flds 0 of Inl e \<Rightarrow> Inl e | Inr p \<Rightarrow>
             Inr (setNode n (actInfo\<lparr>buildsRemaining := buildsRemaining actInfo - {p}\<rparr>) state))
        else if rty = resExpectSubstitution then
          (case getS flds 0 of Inl e \<Rightarrow> Inl e | Inr p \<Rightarrow>
             Inr (setNode n (actInfo\<lparr>substitutionsRemaining :=
                                      insert p (substitutionsRemaining actInfo)\<rparr>) state))
        else if rty = resUnexpectSubstitution then
          (case getS flds 0 of Inl e \<Rightarrow> Inl e | Inr p \<Rightarrow>
             Inr (setNode n (actInfo\<lparr>substitutionsRemaining :=
                                      substitutionsRemaining actInfo - {p}\<rparr>) state))
        else Inr state))"

subsection \<open>Sequences of calls\<close>

datatype Event =
    StartActivity ActivityId Verbosity ActivityType string "Field list" ActivityId
  | StopActivity ActivityId
  | Result ActivityId ResultType "Field list"
  | Draw

fun apply_event :: "Env \<Rightarrow> State \<Rightarrow> Event \<Rightarrow> (error + State) option" where
  "apply_event env state (StartActivity act lvl ty str flds par) =
     startActivity env state act lvl ty str flds par"
| "apply_event env state (StopActivity act) = Some (stopActivity state act)"
| "apply_event env state (Result act rty flds) = Some (result env state act rty flds)"
| "apply_event env state Draw = Some (Inr (draw state))"

text \<open>A run stops at the first call that fails an assertion or does not return.\<close>

fun run :: "Env \<Rightarrow> State \<Rightarrow> Event list \<Rightarrow> (error + State) option" where
  "run env state [] = Some (Inr state)"
| "run env state (ev # evs) =
     (case apply_event env state ev of
        None \<Rightarrow> None
      | Some (Inl e) \<Rightarrow> Some (Inl e)
      | Some (Inr state') \<Rightarrow> run env state' evs)"

section \<open>The bar: \<^verbatim>\<open>renderBar\<close>\<close>

text \<open>
  \<^verbatim>\<open>renderBar\<close> computes in \<^verbatim>\<open>double\<close>.  A finite double is a rational number, and every
  operation of the function (the conversion of a \<^verbatim>\<open>uint64_t\<close>, the division, the product
  with \<open>70\<close>) is the exact result rounded to the nearest double, ties to the even
  significand.  \<open>toDouble\<close> is that rounding for a significand of 53 bits; it leaves out
  the subnormal and the infinite range, which the values of \<^verbatim>\<open>renderBar\<close> do not reach
  (they are \<open>0\<close> or lie between \<open>2\<^sup>-\<^sup>6\<^sup>4\<close> and \<open>2\<^sup>6\<^sup>4\<close>).
\<close>

function bitlen :: "int \<Rightarrow> int" where
  "bitlen n = (if n \<le> 0 then 0 else 1 + bitlen (n div 2))"
  by pat_completeness auto
termination
  by (relation "measure nat") auto

declare bitlen.simps [simp del]

definition roundHalfEven :: "rat \<Rightarrow> int" where
  "roundHalfEven x =
     (let f = \<lfloor>x\<rfloor>; d = x - of_int f
      in if d < 1 / 2 then f
         else if 1 / 2 < d then f + 1
         else if even f then f else f + 1)"

definition toDouble :: "rat \<Rightarrow> rat" where
  "toDouble x =
     (if x \<le> 0 then 0
      else
        let pq = quotient_of x;
            d = bitlen (fst pq) - bitlen (snd pq);
            e = (if power_int 2 d \<le> x then d else d - 1)
        in of_int (roundHalfEven (x * power_int 2 (52 - e))) * power_int 2 (e - 52))"

definition ofU64 :: "64 word \<Rightarrow> rat" where
  "ofU64 w = toDouble (of_int (uint w))"

definition fdiv :: "rat \<Rightarrow> rat \<Rightarrow> rat" where
  "fdiv a b = toDouble (a / b)"

definition fmul :: "rat \<Rightarrow> rat \<Rightarrow> rat" where
  "fmul a b = toDouble (a * b)"

text \<open>The conversion of a double to \<^verbatim>\<open>size_t\<close> drops the fraction.\<close>

definition toSize :: "rat \<Rightarrow> 64 word" where
  "toSize x = word_of_int \<lfloor>x\<rfloor>"

primrec repeat :: "string \<Rightarrow> nat \<Rightarrow> string" where
  "repeat x 0 = []"
| "repeat x (Suc n) = repeat x n @ x"

text \<open>The three boundaries \<^verbatim>\<open>chars1\<close>, \<^verbatim>\<open>chars2\<close> and \<^verbatim>\<open>chars3\<close>.\<close>

definition barChars :: "64 word \<Rightarrow> 64 word \<Rightarrow> 64 word \<Rightarrow> 64 word \<Rightarrow> 64 word \<times> 64 word \<times> 64 word" where
  "barChars nDone nFailed nRunning nExpected =
     (let nExpected' = max nExpected 1;
          pct1 = min (fdiv (ofU64 nFailed) (ofU64 nExpected')) 1;
          pct2 = min (fdiv (ofU64 (nFailed + nDone)) (ofU64 nExpected')) 1;
          pct3 = min (fdiv (ofU64 (nFailed + nDone + nRunning)) (ofU64 nExpected')) 1
      in (toSize (fmul 70 pct1), toSize (fmul 70 pct2), toSize (fmul 70 pct3)))"

text \<open>The glyphs are the UTF-8 bytes of the string literals in the source.\<close>

definition fullBlock :: string where
  "fullBlock = [CHR 0xE2, CHR 0x96, CHR 0x88]"

definition darkShade :: string where
  "darkShade = [CHR 0xE2, CHR 0x96, CHR 0x93]"

definition mediumShade :: string where
  "mediumShade = [CHR 0xE2, CHR 0x96, CHR 0x92]"

definition renderBar :: "Env \<Rightarrow> 64 word \<Rightarrow> 64 word \<Rightarrow> 64 word \<Rightarrow> 64 word \<Rightarrow> error + string" where
  "renderBar env nDone nFailed nRunning nExpected =
     (case barChars nDone nFailed nRunning nExpected of (chars1, chars2, chars3) \<Rightarrow>
        if \<not> chars1 \<le> chars2 then Inl AssertionFailed
        else if \<not> chars2 \<le> chars3 then Inl AssertionFailed
        else Inr (ANSI_RED env @ repeat fullBlock (unat chars1)
                  @ ANSI_GREEN env @ repeat fullBlock (unat (chars2 - chars1))
                  @ ANSI_YELLOW env @ repeat darkShade (unat (chars3 - chars2))
                  @ ANSI_NORMAL env @ repeat mediumShade (unat (70 - chars3))))"

section \<open>Reachable states and reference definitions\<close>

text \<open>
  The states that the constructor and any sequence of calls produce; the globals may
  change between two calls.
\<close>

inductive reachable :: "State \<Rightarrow> bool" where
  init: "reachable (newState env isTTY)"
| step: "reachable state \<Longrightarrow> apply_event env state ev = Some (Inr state') \<Longrightarrow> reachable state'"

text \<open>The caller's contract on ids: a unit is started under an id that is not open.\<close>

definition freshId :: "State \<Rightarrow> Event \<Rightarrow> bool" where
  "freshId state ev =
     (case ev of
        StartActivity act _ _ _ _ _ \<Rightarrow> map_of (State.its state) act = None
      | _ \<Rightarrow> True)"

inductive reachableUnique :: "State \<Rightarrow> bool" where
  initU: "reachableUnique (newState env isTTY)"
| stepU: "reachableUnique state \<Longrightarrow> freshId state ev \<Longrightarrow>
          apply_event env state ev = Some (Inr state') \<Longrightarrow> reachableUnique state'"

text \<open>An environment for the evaluation of examples.\<close>

definition exampleEnv :: Env where
  "exampleEnv =
     \<lparr> verbosity = 0, printBuildLogs = False, now = 0,
       toActivityType = (\<lambda>k. if k = 105 then actBuild else actOtherType (unat k)),
       drvName = (\<lambda>x. x),
       ANSI_BOLD = CHR 0x1B # ''[1m'', ANSI_NORMAL = CHR 0x1B # ''[0m'',
       ANSI_RED = CHR 0x1B # ''[31;1m'', ANSI_GREEN = CHR 0x1B # ''[32;1m'',
       ANSI_YELLOW = CHR 0x1B # ''[33;1m'',
       freed = (\<lambda>x. x) \<rparr>"

text \<open>
  The units that the rollup of kind \<open>k\<close> ranges over: the nodes in the live set of that
  kind's \<^verbatim>\<open>ActivitiesByType\<close> that are not ignored.
\<close>

definition liveUnits :: "State \<Rightarrow> ActivityType \<Rightarrow> ActInfo list" where
  "liveUnits state k =
     filter (\<lambda>j. \<not> ignored j)
       (List.map_filter (\<lambda>kn. map_of (activities state) (snd kn))
          (ActivitiesByType.its (activitiesByType state k)))"

text \<open>
  The rollup in the words of the specification: cumulative done and failed plus the
  units' own, \<open>left\<close> summed per unit, and \<open>expected\<close> the larger of the units' sum and the
  directly set value.
\<close>

definition rollup_spec :: "State \<Rightarrow> ActivityType \<Rightarrow> ActivityStats" where
  "rollup_spec state k =
     \<lparr> ActivityStats.done =
         ActivitiesByType.done (activitiesByType state k)
         + sum_list (map ActInfo.done (liveUnits state k)),
       ActivityStats.expected =
         max (sum_list (map ActInfo.expected (liveUnits state k)))
             (ActivitiesByType.expected (activitiesByType state k)),
       ActivityStats.running = sum_list (map ActInfo.running (liveUnits state k)),
       ActivityStats.failed =
         ActivitiesByType.failed (activitiesByType state k)
         + sum_list (map ActInfo.failed (liveUnits state k)),
       left =
         sum_list (map (\<lambda>j. if ActInfo.done j < ActInfo.expected j
                            then ActInfo.expected j - ActInfo.done j else 0)
                       (liveUnits state k)) \<rparr>"

section \<open>Invariants of the registry\<close>

text \<open>
  Well-formedness of the registry: node addresses are distinct and below the allocation
  counter; the keys of every index are distinct; every iterator in an index points to a
  node of the list; the flat index holds no node twice; an iterator in the index of a
  type points to a node of that type, and if that node is in the flat index too, it is
  there under the same id.
\<close>

definition wfState :: "State \<Rightarrow> bool" where
  "wfState st \<longleftrightarrow>
     distinct (map fst (activities st)) \<and>
     (\<forall>ni \<in> set (activities st). fst ni < nextNode st) \<and>
     distinct (map fst (State.its st)) \<and>
     (\<forall>t. distinct (map fst (ActivitiesByType.its (activitiesByType st t)))) \<and>
     (\<forall>an \<in> set (State.its st). snd an \<in> fst ` set (activities st)) \<and>
     (\<forall>an \<in> set (State.its st). \<forall>an' \<in> set (State.its st).
        snd an = snd an' \<longrightarrow> fst an = fst an') \<and>
     (\<forall>t. \<forall>an \<in> set (ActivitiesByType.its (activitiesByType st t)).
        \<exists>i. (snd an, i) \<in> set (activities st) \<and> type i = t) \<and>
     (\<forall>t. \<forall>an \<in> set (ActivitiesByType.its (activitiesByType st t)).
        \<forall>an' \<in> set (State.its st). snd an = snd an' \<longrightarrow> fst an = fst an')"

text \<open>The members that the blocks of \<^verbatim>\<open>startActivity\<close> leave alone.\<close>

definition sameCounters :: "ActInfo \<Rightarrow> ActInfo \<Rightarrow> bool" where
  "sameCounters i i' \<longleftrightarrow>
     type i' = type i \<and> parent i' = parent i \<and> expectedByType i' = expectedByType i \<and>
     ActInfo.done i' = ActInfo.done i \<and> ActInfo.expected i' = ActInfo.expected i \<and>
     ActInfo.running i' = ActInfo.running i \<and> ActInfo.failed i' = ActInfo.failed i"

text \<open>The part of the state that the registry operations read and write.\<close>

definition registry :: "State \<Rightarrow> (node \<times> ActInfo) list \<times> (ActivityId \<times> node) list \<times> (ActivityType \<Rightarrow> ActivitiesByType) \<times> node" where
  "registry st = (activities st, State.its st, activitiesByType st, nextNode st)"

text \<open>The nodes that a list of index entries points to, without the ignored ones.\<close>

definition unitsOf :: "State \<Rightarrow> (ActivityId \<times> node) list \<Rightarrow> ActInfo list" where
  "unitsOf st js =
     filter (\<lambda>j. \<not> ignored j) (List.map_filter (\<lambda>kn. map_of (activities st) (snd kn)) js)"

text \<open>
  The contribution of every open unit to the directly set \<open>expected\<close> of kind \<open>k\<close>, in
  list order, and their sum in \<^verbatim>\<open>uint64_t\<close>.
\<close>

definition contributions :: "State \<Rightarrow> ActivityType \<Rightarrow> 64 word list" where
  "contributions st k = map (\<lambda>ni. lookupExpected (expectedByType (snd ni)) k) (activities st)"

definition expectedSum :: "State \<Rightarrow> ActivityType \<Rightarrow> 64 word" where
  "expectedSum st k = sum_list (contributions st k)"

text \<open>
  The invariant behind the directly set \<open>expected\<close>: an ignored unit has no contributions,
  the keys of a unit's \<^verbatim>\<open>expectedByType\<close> are distinct, and the field of every kind is
  the sum of the open units' contributions to it.
\<close>

definition expectedInv :: "State \<Rightarrow> bool" where
  "expectedInv st \<longleftrightarrow>
     (\<forall>ni \<in> set (activities st). ignored (snd ni) \<longrightarrow> expectedByType (snd ni) = []) \<and>
     (\<forall>ni \<in> set (activities st). distinct (map fst (expectedByType (snd ni)))) \<and>
     (\<forall>k. ActivitiesByType.expected (activitiesByType st k) = expectedSum st k)"

text \<open>The address and the type of every node of the list.\<close>

definition kinds :: "State \<Rightarrow> (node \<times> ActivityType) list" where
  "kinds st = map (\<lambda>mi. (fst mi, type (snd mi))) (activities st)"

text \<open>
  The invariant of the two indices when ids are unique: an entry of the flat index is
  also in the index of its node's type; an entry of the index of a type is also in the
  flat index; every node of the list is in the flat index.
\<close>

definition indexInv :: "State \<Rightarrow> bool" where
  "indexInv st \<longleftrightarrow>
     (\<forall>an \<in> set (State.its st).
        \<exists>t. (snd an, t) \<in> set (kinds st) \<and>
            an \<in> set (ActivitiesByType.its (activitiesByType st t))) \<and>
     (\<forall>t. \<forall>an \<in> set (ActivitiesByType.its (activitiesByType st t)).
        an \<in> set (State.its st)) \<and>
     (\<forall>nt \<in> set (kinds st). \<exists>a. (a, fst nt) \<in> set (State.its st))"

text \<open>A sequence of calls that keeps the contract on ids.\<close>

fun freshRun :: "Env \<Rightarrow> State \<Rightarrow> Event list \<Rightarrow> bool" where
  "freshRun env st [] = True"
| "freshRun env st (ev # evs) =
     (freshId st ev \<and>
      (case apply_event env st ev of
         Some (Inr st') \<Rightarrow> freshRun env st' evs
       | _ \<Rightarrow> True))"

section \<open>The chain of parents\<close>

text \<open>
  The walk of \<^verbatim>\<open>hasAncestor\<close> from \<open>a\<close> ends by itself when it reaches the id \<open>0\<close> or an
  id that is not open; the id \<open>act\<close> of the unit being started is not open before the
  call but is in the index while the walk runs.
\<close>

inductive parentChainEnds :: "State \<Rightarrow> ActivityId \<Rightarrow> ActivityId \<Rightarrow> bool"
  for st :: State and act :: ActivityId where
  root: "parentChainEnds st act 0"
| closed: "a \<noteq> 0 \<Longrightarrow> a \<noteq> act \<Longrightarrow> map_of (State.its st) a = None \<Longrightarrow>
           parentChainEnds st act a"
| up: "a \<noteq> 0 \<Longrightarrow> map_of (State.its st) a = Some n \<Longrightarrow> deref st n = Inr i \<Longrightarrow>
       parentChainEnds st act (parent i) \<Longrightarrow> parentChainEnds st act a"

text \<open>An open unit of type \<open>t\<close> on the chain of open units from \<open>a\<close>.\<close>

inductive hasOpenAncestor :: "State \<Rightarrow> ActivityType \<Rightarrow> ActivityId \<Rightarrow> bool"
  for st :: State and t :: ActivityType where
  here: "a \<noteq> 0 \<Longrightarrow> map_of (State.its st) a = Some n \<Longrightarrow> deref st n = Inr i \<Longrightarrow>
         type i = t \<Longrightarrow> hasOpenAncestor st t a"
| further: "a \<noteq> 0 \<Longrightarrow> map_of (State.its st) a = Some n \<Longrightarrow> deref st n = Inr i \<Longrightarrow>
         type i \<noteq> t \<Longrightarrow> hasOpenAncestor st t (parent i) \<Longrightarrow> hasOpenAncestor st t a"

text \<open>
  The fields that the \<^verbatim>\<open>assert\<close>s of \<^verbatim>\<open>getS\<close> and \<^verbatim>\<open>getI\<close> accept, for the fields that
  \<^verbatim>\<open>startActivity\<close> reads for a type and \<^verbatim>\<open>result\<close> for a result type.
\<close>

definition isString :: "Field list \<Rightarrow> nat \<Rightarrow> bool" where
  "isString flds n = (case getS flds n of Inr _ \<Rightarrow> True | Inl _ \<Rightarrow> False)"

definition isInt :: "Field list \<Rightarrow> nat \<Rightarrow> bool" where
  "isInt flds n = (case getI flds n of Inr _ \<Rightarrow> True | Inl _ \<Rightarrow> False)"

definition resultFieldsOk :: "ResultType \<Rightarrow> Field list \<Rightarrow> bool" where
  "resultFieldsOk rty flds \<longleftrightarrow>
     (rty = resFileLinked \<longrightarrow> isInt flds 0) \<and>
     (rty \<in> {resBuildLogLine, resPostBuildLogLine, resSetPhase, resExpectBuild,
              resUnexpectBuild, resExpectSubstitution, resUnexpectSubstitution}
        \<longrightarrow> isString flds 0) \<and>
     (rty = resProgress \<longrightarrow> isInt flds 0 \<and> isInt flds 1 \<and> isInt flds 2 \<and> isInt flds 3) \<and>
     (rty = resSetExpected \<longrightarrow> isInt flds 0 \<and> isInt flds 1)"

definition fieldsOk :: "ActivityType \<Rightarrow> Field list \<Rightarrow> bool" where
  "fieldsOk ty flds \<longleftrightarrow>
     (ty = actBuild \<longrightarrow> isString flds 0 \<and> isString flds 1 \<and> isInt flds 2 \<and> isInt flds 3) \<and>
     (ty = actSubstitute \<or> ty = actQueryPathInfo \<longrightarrow> isString flds 0 \<and> isString flds 1) \<and>
     (ty = actPostBuildHook \<or> ty = actFileTransfer \<longrightarrow> isString flds 0)"

section \<open>Properties\<close>

text \<open>The definitions that the evaluation of an example unfolds.\<close>

lemmas eval_defs =
  startActivity_def newState_def initState_def resetHelp_def removeStatusLines_def lineLess_def exampleEnv_def log_def draw_def insertNode_def
  blockBuild_def blockSubstitute_def blockPostBuildHook_def blockQueryPathInfo_def
  blockFileTransfer_def blockVisible_def newActInfo_def setNode_def update_def emplace_def
  newActivitiesByType_def Let_def stopActivity_def result_def deref_def erase_def
  eraseNode_def getS_def getI_def retractExpected_def lookupExpected_def setExpected_def
  getActivityStats_def addStats_def

subsection \<open>Unknown ids\<close>

lemma map_of_erase_same: "map_of (erase k m) k = None"
  by (induction m) (auto simp: erase_def)

lemma stopActivity_closes_id:
  "stopActivity state act = Inr state1 \<Longrightarrow> map_of (State.its state1) act = None"
  by (auto simp: stopActivity_def update_def eraseNode_def map_of_erase_same Let_def
           split: option.splits sum.splits)

text \<open>
  C3 (as amended).  \<^verbatim>\<open>result\<close> looks the id up in the flat index and asserts that it is
  there: for every result type and every field list, a call whose id is not open fails
  that assertion, and no state is produced.
\<close>

theorem result_unknown_id_fails_assertion:
  "map_of (State.its state) act = None \<Longrightarrow>
   result env state act rty flds = Inl AssertionFailed"
  by (simp add: result_def)

theorem result_unknown_id_fails_assertion_witness:
  "map_of (State.its (newState exampleEnv True)) 7 = None \<and>
   result exampleEnv (newState exampleEnv True) 7 resExpectBuild [tString ''/nix/store/a-b.drv'']
     = Inl AssertionFailed"
  using result_unknown_id_fails_assertion
    [of "newState exampleEnv True" 7 exampleEnv resExpectBuild "[tString ''/nix/store/a-b.drv'']"]
  by (simp add: newState_def initState_def resetHelp_def removeStatusLines_def lineLess_def)

text \<open>
  C3 (as stated) fails: in the state after construction no unit is open, and a
  set-phase result for id \<open>1\<close> does not return a state.
\<close>

theorem result_unknown_id_counterexample:
  "map_of (State.its (newState exampleEnv True)) 1 = None \<and>
   result exampleEnv (newState exampleEnv True) 1 resSetPhase [tString ''configure'']
     \<noteq> Inr (newState exampleEnv True) \<and>
   result exampleEnv (newState exampleEnv True) 1 resSetPhase [tString ''configure'']
     = Inl AssertionFailed"
  by (simp add: result_def newState_def initState_def resetHelp_def removeStatusLines_def lineLess_def)

text \<open>
  C5.  \<^verbatim>\<open>stopActivity\<close> with an id that is not open returns normally; the state it
  returns differs from the one it got in the dirty flag and the notification only, so
  the list of units, both indices and every rollup counter are the same.  After a
  \<^verbatim>\<open>stopActivity\<close> of any id that id is not open, so a second call for it is such a call.
\<close>

theorem stopActivity_unknown_id_noop:
  "(map_of (State.its state) act = None \<longrightarrow>
      stopActivity state act =
        Inr (state\<lparr>haveUpdate := True,
                   updateCV_notified := Suc (updateCV_notified state)\<rparr>))
   \<and> (stopActivity state act = Inr state1 \<longrightarrow>
      stopActivity state1 act =
        Inr (state1\<lparr>haveUpdate := True,
                    updateCV_notified := Suc (updateCV_notified state1)\<rparr>))"
proof (intro conjI impI)
  assume "map_of (State.its state) act = None"
  then show "stopActivity state act =
      Inr (state\<lparr>haveUpdate := True, updateCV_notified := Suc (updateCV_notified state)\<rparr>)"
    by (simp add: stopActivity_def update_def)
next
  assume "stopActivity state act = Inr state1"
  then have "map_of (State.its state1) act = None"
    by (rule stopActivity_closes_id)
  then show "stopActivity state1 act =
      Inr (state1\<lparr>haveUpdate := True, updateCV_notified := Suc (updateCV_notified state1)\<rparr>)"
    by (simp add: stopActivity_def update_def)
qed

theorem stopActivity_unknown_id_noop_witness:
  "case run exampleEnv (newState exampleEnv True) [StartActivity 3 0 actBuilds ''building'' [] 0] of
     Some (Inr st0) \<Rightarrow>
       (case stopActivity st0 3 of
          Inr st1 \<Rightarrow>
            map_of (State.its st0) 3 = Some 0 \<and>
            map_of (State.its st1) 3 = None \<and>
            stopActivity st1 3 =
              Inr (st1\<lparr>haveUpdate := True, updateCV_notified := Suc (updateCV_notified st1)\<rparr>)
        | Inl _ \<Rightarrow> False)
   | _ \<Rightarrow> False"
  using stopActivity_unknown_id_noop
    [of "projr (stopActivity (projr (the (run exampleEnv (newState exampleEnv True)
            [StartActivity 3 0 actBuilds ''building'' [] 0]))) 3)" 3
        "projr (stopActivity (projr (the (run exampleEnv (newState exampleEnv True)
            [StartActivity 3 0 actBuilds ''building'' [] 0]))) 3)"]
  by (simp add: eval_defs)

subsection \<open>Set-expected\<close>


lemma lookupExpected_setExpected_same: "lookupExpected (setExpected k v m) k = v"
  by (induction m) (auto simp: lookupExpected_def setExpected_def split: option.splits)

lemma map_of_map_upd:
  "map_of xs n = Some i0 \<Longrightarrow> map_of (map (\<lambda>mi. if fst mi = n then (n, i) else mi) xs) n = Some i"
  by (induction xs) auto

lemma deref_setNode_same:
  "deref state n = Inr i0 \<Longrightarrow> deref (setNode n i state) n = Inr i"
  by (auto simp: deref_def setNode_def map_of_map_upd split: option.splits)

lemma result_setExpected_step:
  assumes "map_of (State.its state) act = Some n" and "deref state n = Inr i" and "\<not> ignored i"
  shows "\<exists>state1.
     result env state act resSetExpected [tInt k, tInt v] = Inr state1 \<and>
     State.its state1 = State.its state \<and>
     deref state1 n = Inr (i\<lparr>expectedByType := setExpected (toActivityType env k) v (expectedByType i)\<rparr>) \<and>
     ActivitiesByType.expected (activitiesByType state1 (toActivityType env k)) =
       ActivitiesByType.expected (activitiesByType state (toActivityType env k))
         - lookupExpected (expectedByType i) (toActivityType env k) + v"
  using assms deref_setNode_same[OF assms(2)]
  by (simp add: result_def getI_def Let_def update_def deref_def setNode_def)

text \<open>
  C6.  On an open unit that is not ignored, a set-expected result for sub-kind \<open>k\<close> with
  value \<open>v\<close> stores \<open>v\<close> as the unit's contribution to kind \<open>k\<close> and changes that kind's
  directly set \<open>expected\<close> by \<open>v\<close> minus the contribution stored before.  After two such
  calls with \<open>v1\<close> and then \<open>v2\<close> the unit's contribution is \<open>v2\<close> and the rollup holds what
  it held before the first call, minus the old contribution, plus \<open>v2\<close>: \<open>v1\<close> has left no
  trace.
\<close>

theorem setExpected_replaces:
  assumes "map_of (State.its state) act = Some n" and "deref state n = Inr i" and "\<not> ignored i"
  shows "\<exists>state1 i1 state2 i2.
     result env state act resSetExpected [tInt k, tInt v1] = Inr state1 \<and>
     deref state1 n = Inr i1 \<and>
     lookupExpected (expectedByType i1) (toActivityType env k) = v1 \<and>
     ActivitiesByType.expected (activitiesByType state1 (toActivityType env k)) =
       ActivitiesByType.expected (activitiesByType state (toActivityType env k))
         - lookupExpected (expectedByType i) (toActivityType env k) + v1 \<and>
     result env state1 act resSetExpected [tInt k, tInt v2] = Inr state2 \<and>
     deref state2 n = Inr i2 \<and>
     lookupExpected (expectedByType i2) (toActivityType env k) = v2 \<and>
     ActivitiesByType.expected (activitiesByType state2 (toActivityType env k)) =
       ActivitiesByType.expected (activitiesByType state (toActivityType env k))
         - lookupExpected (expectedByType i) (toActivityType env k) + v2"
proof -
  let ?ty = "toActivityType env k"
  let ?i1 = "i\<lparr>expectedByType := setExpected ?ty v1 (expectedByType i)\<rparr>"
  obtain state1 where 1: "result env state act resSetExpected [tInt k, tInt v1] = Inr state1"
    "State.its state1 = State.its state" "deref state1 n = Inr ?i1"
    "ActivitiesByType.expected (activitiesByType state1 ?ty) =
       ActivitiesByType.expected (activitiesByType state ?ty) - lookupExpected (expectedByType i) ?ty + v1"
    using result_setExpected_step[OF assms, of env k v1] by blast
  have ign: "\<not> ignored ?i1" using assms(3) by simp
  have idx: "map_of (State.its state1) act = Some n" using 1(2) assms(1) by simp
  let ?i2 = "?i1\<lparr>expectedByType := setExpected ?ty v2 (expectedByType ?i1)\<rparr>"
  obtain state2 where 2: "result env state1 act resSetExpected [tInt k, tInt v2] = Inr state2"
    "deref state2 n = Inr ?i2"
    "ActivitiesByType.expected (activitiesByType state2 ?ty) =
       ActivitiesByType.expected (activitiesByType state1 ?ty) - lookupExpected (expectedByType ?i1) ?ty + v2"
    using result_setExpected_step[OF idx 1(3) ign, of env k v2] by blast
  have "ActivitiesByType.expected (activitiesByType state2 ?ty) =
       ActivitiesByType.expected (activitiesByType state ?ty) - lookupExpected (expectedByType i) ?ty + v2"
    using 1(4) 2(3) by (simp add: lookupExpected_setExpected_same)
  with 1 2 show ?thesis
    by (intro exI[of _ state1] exI[of _ ?i1] exI[of _ state2] exI[of _ ?i2])
       (simp add: lookupExpected_setExpected_same)
qed

theorem setExpected_replaces_witness:
  "case run exampleEnv (newState exampleEnv True)
          [StartActivity 1 0 actBuilds ''building'' [] 0,
           Result 1 resSetExpected [tInt 105, tInt 5],
           Result 1 resSetExpected [tInt 105, tInt 2]] of
     Some (Inr st) \<Rightarrow>
       ActivitiesByType.expected (activitiesByType st actBuild) = 2 \<and>
       map_option expectedByType (map_of (activities st) 0) = Some [(actBuild, 2)]
   | _ \<Rightarrow> False"
  using setExpected_replaces
    [of "projr (the (run exampleEnv (newState exampleEnv True)
            [StartActivity 1 0 actBuilds ''building'' [] 0]))" 1 0
        "projr (deref (projr (the (run exampleEnv (newState exampleEnv True)
            [StartActivity 1 0 actBuilds ''building'' [] 0]))) 0)"
        exampleEnv 105 5 2]
  by (simp add: eval_defs)

subsection \<open>The dirty flag\<close>

lemma update_dirty [simp]:
  "haveUpdate (update st)" "updateCV_notified (update st) = Suc (updateCV_notified st)"
  by (simp_all add: update_def)

lemma setNode_flags [simp]:
  "haveUpdate (setNode n i st) = haveUpdate st"
  "updateCV_notified (setNode n i st) = updateCV_notified st"
  by (simp_all add: setNode_def)

lemma log_notified [simp]: "updateCV_notified (log st) = updateCV_notified st"
  by (simp add: log_def draw_def Let_def)

lemma insertNode_notified [simp]:
  "updateCV_notified (insertNode act ty i st) = updateCV_notified st"
  by (simp add: insertNode_def Let_def)

lemma startActivity_dirty:
  assumes "startActivity env state act lvl ty str flds par = Some (Inr state')"
  shows "haveUpdate state' \<and> updateCV_notified state' = Suc (updateCV_notified state)"
  using assms
  by (auto simp: startActivity_def Let_def split: sum.splits option.splits if_splits)

lemma stopActivity_dirty:
  assumes "stopActivity state act = Inr state'"
  shows "haveUpdate state' \<and> updateCV_notified state' = Suc (updateCV_notified state)"
  using assms
  by (auto simp: stopActivity_def Let_def eraseNode_def update_def split: sum.splits option.splits if_splits)

lemma result_dirty_plain:
  assumes "result env state act rty flds = Inr state'"
    and "rty \<in> {resFileLinked, resUntrustedPath, resCorruptedPath, resSetPhase}"
  shows "haveUpdate state' \<and> updateCV_notified state' = Suc (updateCV_notified state)"
  using assms
  by (auto simp: result_def Let_def split: sum.splits option.splits if_splits)

lemma result_dirty_counters:
  assumes "result env state act rty flds = Inr state'"
    and "rty \<in> {resProgress, resSetExpected}"
    and "map_of (State.its state) act = Some n" and "deref state n = Inr i" and "\<not> ignored i"
  shows "haveUpdate state' \<and> updateCV_notified state' = Suc (updateCV_notified state)"
  using assms
  by (auto simp: result_def Let_def split: sum.splits option.splits if_splits)

lemma result_dirty_logline:
  assumes "result env state act rty flds = Inr state'"
    and "rty \<in> {resBuildLogLine, resPostBuildLogLine}"
    and "getS flds 0 = Inr line" and "chomp line \<noteq> []" and "\<not> printBuildLogs env"
  shows "haveUpdate state' \<and> updateCV_notified state' = Suc (updateCV_notified state)"
  using assms
  by (auto simp: result_def Let_def split: sum.splits option.splits if_splits)

lemma result_pending_not_dirty:
  assumes "result env state act rty flds = Inr state'"
    and "rty \<in> {resExpectBuild, resUnexpectBuild, resExpectSubstitution, resUnexpectSubstitution}"
  shows "haveUpdate state' = haveUpdate state \<and> updateCV_notified state' = updateCV_notified state"
  using assms
  by (auto simp: result_def Let_def split: sum.splits option.splits if_splits)

subsection \<open>The label of a build\<close>

lemma showDec_2: "showDec 2 = ''2''"
  by code_simp

lemma showDec_3: "showDec 3 = ''3''"
  by code_simp

lemma baseNameOf_last_component:
  assumes "b \<noteq> []" and "CHR ''/'' \<notin> set b" and "d = [] \<or> last d = CHR ''/''"
  shows "baseNameOf (d @ b) = b"
proof -
  have ne: "d @ b \<noteq> []" using assms(1) by simp
  have "(d @ b) ! (length (d @ b) - 1) = last b"
    using assms(1) ne by (metis last_appendR last_conv_nth)
  moreover have "last b \<noteq> CHR ''/''"
    using assms(1,2) last_in_set by metis
  ultimately have 1: "baseNameOf (d @ b)
      = rev (takeWhile (\<lambda>c. c \<noteq> CHR ''/'') (rev (d @ b)))"
    using ne by (simp add: baseNameOf_def Let_def)
  have a: "takeWhile (\<lambda>c. c \<noteq> CHR ''/'') (rev d) = []"
    using assms(3) by (cases d rule: rev_cases) auto
  have "takeWhile (\<lambda>c. c \<noteq> CHR ''/'') (rev b @ rev d)
          = rev b @ takeWhile (\<lambda>c. c \<noteq> CHR ''/'') (rev d)"
    by (rule takeWhile_append2) (use assms(2) in auto)
  with a have "takeWhile (\<lambda>c. c \<noteq> CHR ''/'') (rev b @ rev d) = rev b"
    by simp
  with 1 show ?thesis by simp
qed

lemma storePathToName_after_dash:
  assumes "CHR ''-'' \<notin> set h" and "CHR ''/'' \<notin> set h" and "CHR ''/'' \<notin> set nm"
    and "d = [] \<or> last d = CHR ''/''"
  shows "storePathToName (d @ h @ ''-'' @ nm) = nm"
proof -
  have "baseNameOf (d @ (h @ ''-'' @ nm)) = h @ ''-'' @ nm"
    using assms(2,3,4) by (intro baseNameOf_last_component) auto
  moreover have "dropWhile (\<lambda>c. c \<noteq> CHR ''-'') (h @ ''-'' @ nm) = ''-'' @ nm"
  proof -
    have "dropWhile (\<lambda>c. c \<noteq> CHR ''-'') (h @ ''-'' @ nm)
            = dropWhile (\<lambda>c. c \<noteq> CHR ''-'') (''-'' @ nm)"
      by (rule dropWhile_append2) (use assms(1) in auto)
    then show ?thesis by simp
  qed
  ultimately show ?thesis
    by (simp add: storePathToName_def Let_def)
qed

lemma storePathToName_no_dash:
  assumes "b \<noteq> []" and "CHR ''-'' \<notin> set b" and "CHR ''/'' \<notin> set b"
    and "d = [] \<or> last d = CHR ''/''"
  shows "storePathToName (d @ b) = []"
proof -
  have "baseNameOf (d @ b) = b"
    using assms(1,3,4) by (rule baseNameOf_last_component)
  moreover have "dropWhile (\<lambda>c. c \<noteq> CHR ''-'') b = []"
    using assms(2) by (auto simp: dropWhile_eq_Nil_conv)
  ultimately show ?thesis
    by (simp add: storePathToName_def Let_def)
qed

lemma blockBuild_label_general:
  "\<exists>i'. blockBuild env actBuild [tString path, tString worker, tInt curRound, tInt nrRounds] i
          = Inr i'
     \<and> s i' = ANSI_BOLD env
          @ (if hasSuffix (storePathToName path) ''.drv''
             then take (length (storePathToName path) - 4) (storePathToName path)
             else storePathToName path)
          @ ANSI_NORMAL env
          @ (if worker \<noteq> [] then '' on '' @ ANSI_BOLD env @ worker @ ANSI_NORMAL env else [])
          @ (if nrRounds \<noteq> 1
             then '' (round '' @ showDec (unat curRound) @ ''/'' @ showDec (unat nrRounds) @ '')''
             else [])"
  by (auto simp: blockBuild_def getS_def getI_def Let_def)

lemma last_map_upd: "xs \<noteq> [] \<Longrightarrow> fst (last xs) = n \<Longrightarrow>
   last (map (\<lambda>mi. if fst mi = n then (n, i) else mi) xs) = (n, i)"
  by (simp add: last_map)

lemma startActivity_Build:
  assumes "blockBuild env actBuild flds (newActInfo\<lparr>s := str, type := actBuild, parent := par\<rparr>) = Inr i'"
  shows "\<exists>state' i. startActivity env state act lvl actBuild str flds par = Some (Inr state')
           \<and> last (activities state') = (nextNode state, i) \<and> s i = s i'"
  using assms
  by (simp add: startActivity_def Let_def blockSubstitute_def blockPostBuildHook_def
       blockQueryPathInfo_def blockFileTransfer_def blockVisible_def update_def setNode_def
       insertNode_def log_def draw_def last_map)

lemma startActivity_Build_label:
  "\<exists>state' i.
     startActivity env state act lvl actBuild str
       [tString path, tString worker, tInt curRound, tInt nrRounds] par = Some (Inr state') \<and>
     last (activities state') = (nextNode state, i) \<and>
     s i = ANSI_BOLD env
          @ (if hasSuffix (storePathToName path) ''.drv''
             then take (length (storePathToName path) - 4) (storePathToName path)
             else storePathToName path)
          @ ANSI_NORMAL env
          @ (if worker \<noteq> [] then '' on '' @ ANSI_BOLD env @ worker @ ANSI_NORMAL env else [])
          @ (if nrRounds \<noteq> 1
             then '' (round '' @ showDec (unat curRound) @ ''/'' @ showDec (unat nrRounds) @ '')''
             else [])"
proof -
  obtain i' where i': 
    "blockBuild env actBuild [tString path, tString worker, tInt curRound, tInt nrRounds]
       (newActInfo\<lparr>s := str, type := actBuild, parent := par\<rparr>) = Inr i'"
    "s i' = ANSI_BOLD env
          @ (if hasSuffix (storePathToName path) ''.drv''
             then take (length (storePathToName path) - 4) (storePathToName path)
             else storePathToName path)
          @ ANSI_NORMAL env
          @ (if worker \<noteq> [] then '' on '' @ ANSI_BOLD env @ worker @ ANSI_NORMAL env else [])
          @ (if nrRounds \<noteq> 1
             then '' (round '' @ showDec (unat curRound) @ ''/'' @ showDec (unat nrRounds) @ '')''
             else [])"
    using blockBuild_label_general by blast
  from startActivity_Build [OF i'(1), of state act lvl] obtain state' i where
    "startActivity env state act lvl actBuild str
       [tString path, tString worker, tInt curRound, tInt nrRounds] par = Some (Inr state')"
    "last (activities state') = (nextNode state, i)" "s i = s i'"
    by blast
  with i'(2) show ?thesis by metis
qed

text \<open>
  C9 (as amended).  Let the path in field 0 of a build be a directory part \<open>d\<close> that is
  empty or ends in a slash, followed by a last component without a slash.

  If the last component is \<open>h\<close>, a \<open>-\<close> and \<open>nm\<close>, with no \<open>-\<close> in \<open>h\<close>, then the label of
  the new unit, which is the last node of the list, is: the bold escape sequence, \<open>nm\<close>
  without a final \<open>.drv\<close>, the normal escape sequence; then, only if the worker in
  field 1 is not empty, \<open>on\<close> and the worker in bold; then, only if the total in field 3
  is not 1, the round and the total in parentheses.  If the last component has no \<open>-\<close>
  at all, the label is the same with nothing between the two escape sequences.

  So for \<open>nm\<close> equal to \<open>foo\<close> or \<open>foo.drv\<close>, the fields [path, no worker, round 1 of 1]
  give \<open>foo\<close> between the two escape sequences and nothing after it, and the fields
  [path, remote1, round 2 of 3] give that, then \<open>on remote1\<close>, then \<open>(round 2/3)\<close>.
\<close>

theorem build_label:
  assumes "d = [] \<or> last d = CHR ''/''"
  shows
    "(CHR ''-'' \<notin> set h \<and> CHR ''/'' \<notin> set h \<and> CHR ''/'' \<notin> set nm \<longrightarrow>
        (\<exists>state' i.
           startActivity env state act lvl actBuild str
             [tString (d @ h @ ''-'' @ nm), tString worker, tInt curRound, tInt nrRounds] par
             = Some (Inr state') \<and>
           last (activities state') = (nextNode state, i) \<and>
           s i = ANSI_BOLD env
                 @ (if hasSuffix nm ''.drv'' then take (length nm - 4) nm else nm)
                 @ ANSI_NORMAL env
                 @ (if worker \<noteq> []
                    then '' on '' @ ANSI_BOLD env @ worker @ ANSI_NORMAL env else [])
                 @ (if nrRounds \<noteq> 1
                    then '' (round '' @ showDec (unat curRound) @ ''/''
                         @ showDec (unat nrRounds) @ '')''
                    else [])))
     \<and> (b \<noteq> [] \<and> CHR ''-'' \<notin> set b \<and> CHR ''/'' \<notin> set b \<longrightarrow>
        (\<exists>state' i.
           startActivity env state act lvl actBuild str
             [tString (d @ b), tString worker, tInt curRound, tInt nrRounds] par
             = Some (Inr state') \<and>
           last (activities state') = (nextNode state, i) \<and>
           s i = ANSI_BOLD env @ ANSI_NORMAL env
                 @ (if worker \<noteq> []
                    then '' on '' @ ANSI_BOLD env @ worker @ ANSI_NORMAL env else [])
                 @ (if nrRounds \<noteq> 1
                    then '' (round '' @ showDec (unat curRound) @ ''/''
                         @ showDec (unat nrRounds) @ '')''
                    else [])))
     \<and> (CHR ''-'' \<notin> set h \<and> CHR ''/'' \<notin> set h \<and> (nm = ''foo'' \<or> nm = ''foo.drv'') \<longrightarrow>
        (\<exists>state' i.
           startActivity env state act lvl actBuild str
             [tString (d @ h @ ''-'' @ nm), tString [], tInt 1, tInt 1] par
             = Some (Inr state') \<and>
           last (activities state') = (nextNode state, i) \<and>
           s i = ANSI_BOLD env @ ''foo'' @ ANSI_NORMAL env)
        \<and> (\<exists>state' i.
           startActivity env state act lvl actBuild str
             [tString (d @ h @ ''-'' @ nm), tString ''remote1'', tInt 2, tInt 3] par
             = Some (Inr state') \<and>
           last (activities state') = (nextNode state, i) \<and>
           s i = ANSI_BOLD env @ ''foo'' @ ANSI_NORMAL env
                 @ '' on '' @ ANSI_BOLD env @ ''remote1'' @ ANSI_NORMAL env
                 @ '' (round 2/3)''))"
proof (intro conjI impI)
  assume a: "CHR ''-'' \<notin> set h \<and> CHR ''/'' \<notin> set h \<and> CHR ''/'' \<notin> set nm"
  then have n: "storePathToName (d @ h @ ''-'' @ nm) = nm"
    using assms by (intro storePathToName_after_dash) simp_all
  from startActivity_Build_label [of env state act lvl str "d @ h @ ''-'' @ nm" worker curRound nrRounds par,
      unfolded n]
  show "\<exists>state' i.
           startActivity env state act lvl actBuild str
             [tString (d @ h @ ''-'' @ nm), tString worker, tInt curRound, tInt nrRounds] par
             = Some (Inr state') \<and>
           last (activities state') = (nextNode state, i) \<and>
           s i = ANSI_BOLD env
                 @ (if hasSuffix nm ''.drv'' then take (length nm - 4) nm else nm)
                 @ ANSI_NORMAL env
                 @ (if worker \<noteq> []
                    then '' on '' @ ANSI_BOLD env @ worker @ ANSI_NORMAL env else [])
                 @ (if nrRounds \<noteq> 1
                    then '' (round '' @ showDec (unat curRound) @ ''/''
                         @ showDec (unat nrRounds) @ '')''
                    else [])"
    .
next
  assume "b \<noteq> [] \<and> CHR ''-'' \<notin> set b \<and> CHR ''/'' \<notin> set b"
  then have n: "storePathToName (d @ b) = []"
    using assms by (intro storePathToName_no_dash) simp_all
  have e: "(if hasSuffix [] ''.drv'' then take (length ([]::string) - 4) [] else []) = ([]::string)"
    by simp
  from startActivity_Build_label [of env state act lvl str "d @ b" worker curRound nrRounds par,
      unfolded n e append_Nil]
  show "\<exists>state' i.
           startActivity env state act lvl actBuild str
             [tString (d @ b), tString worker, tInt curRound, tInt nrRounds] par
             = Some (Inr state') \<and>
           last (activities state') = (nextNode state, i) \<and>
           s i = ANSI_BOLD env @ ANSI_NORMAL env
                 @ (if worker \<noteq> []
                    then '' on '' @ ANSI_BOLD env @ worker @ ANSI_NORMAL env else [])
                 @ (if nrRounds \<noteq> 1
                    then '' (round '' @ showDec (unat curRound) @ ''/''
                         @ showDec (unat nrRounds) @ '')''
                    else [])"
    .
next
  assume a: "CHR ''-'' \<notin> set h \<and> CHR ''/'' \<notin> set h \<and> (nm = ''foo'' \<or> nm = ''foo.drv'')"
  then have "CHR ''/'' \<notin> set nm" by auto
  with a have n: "storePathToName (d @ h @ ''-'' @ nm) = nm"
    using assms by (intro storePathToName_after_dash) simp_all
  from a have strip: "(if hasSuffix nm ''.drv'' then take (length nm - 4) nm else nm) = ''foo''"
    by (auto simp: hasSuffix_def)
  from startActivity_Build_label [of env state act lvl str "d @ h @ ''-'' @ nm" "[]" 1 1 par,
      unfolded n strip]
  show "\<exists>state' i.
           startActivity env state act lvl actBuild str
             [tString (d @ h @ ''-'' @ nm), tString [], tInt 1, tInt 1] par
             = Some (Inr state') \<and>
           last (activities state') = (nextNode state, i) \<and>
           s i = ANSI_BOLD env @ ''foo'' @ ANSI_NORMAL env"
    by simp
  from startActivity_Build_label [of env state act lvl str "d @ h @ ''-'' @ nm" "''remote1''" 2 3 par,
      unfolded n strip]
  show "\<exists>state' i.
           startActivity env state act lvl actBuild str
             [tString (d @ h @ ''-'' @ nm), tString ''remote1'', tInt 2, tInt 3] par
             = Some (Inr state') \<and>
           last (activities state') = (nextNode state, i) \<and>
           s i = ANSI_BOLD env @ ''foo'' @ ANSI_NORMAL env
                 @ '' on '' @ ANSI_BOLD env @ ''remote1'' @ ANSI_NORMAL env
                 @ '' (round 2/3)''"
    by (simp add: showDec_2 showDec_3)
qed

theorem build_label_witness:
  "(''/nix/store/'' = [] \<or> last ''/nix/store/'' = CHR ''/'') \<and>
   (case startActivity exampleEnv (newState exampleEnv True) 1 0 actBuild []
           [tString ''/nix/store/abc-foo.drv'', tString [], tInt 1, tInt 1] 0 of
      Some (Inr st) \<Rightarrow>
        map (\<lambda>ni. s (snd ni)) (activities st)
          = [ANSI_BOLD exampleEnv @ ''foo'' @ ANSI_NORMAL exampleEnv]
    | _ \<Rightarrow> False) \<and>
   (case startActivity exampleEnv (newState exampleEnv True) 1 0 actBuild []
           [tString ''/nix/store/abc-foo.drv'', tString ''remote1'', tInt 2, tInt 3] 0 of
      Some (Inr st) \<Rightarrow>
        map (\<lambda>ni. s (snd ni)) (activities st)
          = [ANSI_BOLD exampleEnv @ ''foo'' @ ANSI_NORMAL exampleEnv
             @ '' on '' @ ANSI_BOLD exampleEnv @ ''remote1'' @ ANSI_NORMAL exampleEnv
             @ '' (round 2/3)'']
    | _ \<Rightarrow> False) \<and>
   (case startActivity exampleEnv (newState exampleEnv True) 1 0 actBuild []
           [tString ''/nix/store/foo'', tString ''remote1'', tInt 2, tInt 3] 0 of
      Some (Inr st) \<Rightarrow>
        map (\<lambda>ni. s (snd ni)) (activities st)
          = [ANSI_BOLD exampleEnv @ ANSI_NORMAL exampleEnv
             @ '' on '' @ ANSI_BOLD exampleEnv @ ''remote1'' @ ANSI_NORMAL exampleEnv
             @ '' (round 2/3)'']
    | _ \<Rightarrow> False)"
  using build_label
    [where d = "''/nix/store/''" and h = "''abc''" and nm = "''foo.drv''" and b = "''foo''"
       and env = exampleEnv and state = "newState exampleEnv True" and act = 1 and lvl = 0
       and str = "[]" and worker = "''remote1''" and curRound = 2 and nrRounds = 3 and par = 0]
  by (simp add: eval_defs storePathToName_def baseNameOf_def hasSuffix_def
        showDec_2 showDec_3)

text \<open>
  C9 (as stated) fails: the id \<open>foo\<close> has no \<open>-\<close>, so \<^verbatim>\<open>storePathToName\<close> returns the
  empty string.  The label of the first unit is the two escape sequences with nothing
  between them, and the label of the second unit has the worker and the round but not
  the name; neither holds the letter \<open>f\<close>.
\<close>

theorem build_label_counterexample:
  "(case startActivity exampleEnv (newState exampleEnv True) 1 0 actBuild []
           [tString ''foo'', tString [], tInt 1, tInt 1] 0 of
      Some (Inr st) \<Rightarrow>
        map (\<lambda>ni. s (snd ni)) (activities st)
          = [ANSI_BOLD exampleEnv @ ANSI_NORMAL exampleEnv] \<and>
        (\<forall>ni \<in> set (activities st). CHR ''f'' \<notin> set (s (snd ni)))
    | _ \<Rightarrow> False)
   \<and> (case startActivity exampleEnv (newState exampleEnv True) 1 0 actBuild []
           [tString ''foo'', tString ''remote1'', tInt 2, tInt 3] 0 of
      Some (Inr st) \<Rightarrow>
        map (\<lambda>ni. s (snd ni)) (activities st)
          = [ANSI_BOLD exampleEnv @ ANSI_NORMAL exampleEnv
             @ '' on '' @ ANSI_BOLD exampleEnv @ ''remote1'' @ ANSI_NORMAL exampleEnv
             @ '' (round 2/3)''] \<and>
        (\<forall>ni \<in> set (activities st). CHR ''f'' \<notin> set (s (snd ni)))
    | _ \<Rightarrow> False)"
  by (simp add: eval_defs storePathToName_def baseNameOf_def hasSuffix_def
        showDec_2 showDec_3)

subsection \<open>The bar\<close>

lemma barChars_wraparound: "barChars 1 18446744073709551615 0 1 = (70, 0, 0)"
  by code_simp

lemma renderBar_wraparound:
  "renderBar exampleEnv 1 18446744073709551615 0 1 = Inl AssertionFailed"
  by code_simp

text \<open>
  C7.  The sums \<^verbatim>\<open>failed + done\<close> and \<^verbatim>\<open>failed + done + running\<close> are computed in
  \<^verbatim>\<open>uint64_t\<close> before the conversion to \<^verbatim>\<open>double\<close>, so they wrap around.  A unit of kind
  Builds that reports the progress done = 1, expected = 1, running = 0 and
  failed = \<open>2\<^sup>6\<^sup>4 - 1\<close> gives the rollup the same four values, and on them the first
  boundary is 70 and the second is 0: the first assertion of \<^verbatim>\<open>renderBar\<close> fails.
\<close>

theorem renderBar_wraparound_fails_assertion:
  "case run exampleEnv (newState exampleEnv True)
          [StartActivity 1 0 actBuilds [] [] 0,
           Result 1 resProgress [tInt 1, tInt 1, tInt 0, tInt 18446744073709551615]] of
     Some (Inr st) \<Rightarrow>
       (case getActivityStats st (activitiesByType st actBuilds) of
          Inr builds \<Rightarrow>
            ActivityStats.done builds = 1 \<and>
            ActivityStats.failed builds = 18446744073709551615 \<and>
            ActivityStats.running builds = 0 \<and>
            ActivityStats.expected builds = 1 \<and>
            barChars (ActivityStats.done builds) (ActivityStats.failed builds)
              (ActivityStats.running builds) (ActivityStats.expected builds) = (70, 0, 0) \<and>
            renderBar exampleEnv (ActivityStats.done builds) (ActivityStats.failed builds)
              (ActivityStats.running builds) (ActivityStats.expected builds)
              = Inl AssertionFailed
        | Inl _ \<Rightarrow> False)
   | _ \<Rightarrow> False"
  by (simp add: eval_defs barChars_wraparound renderBar_wraparound [unfolded exampleEnv_def])

subsection \<open>Well-formed states\<close>

text \<open>The index operations.\<close>

lemma set_emplace_subset: "set (emplace k v m) \<subseteq> insert (k, v) (set m)"
  by (auto simp: emplace_def set_insort_key split: option.splits)

lemma set_emplace_fresh: "map_of m k = None \<Longrightarrow> set (emplace k v m) = insert (k, v) (set m)"
  by (simp add: emplace_def set_insort_key)

lemma set_emplace_mono: "set m \<subseteq> set (emplace k v m)"
  by (auto simp: emplace_def set_insort_key split: option.splits)

lemma distinct_emplace: "distinct (map fst m) \<Longrightarrow> distinct (map fst (emplace k v m))"
proof (cases "map_of m k")
  case None
  then have "\<And>w. (k, w) \<notin> set m"
    by (force simp: map_of_eq_None_iff)
  moreover assume "distinct (map fst m)"
  ultimately have "distinct (map fst (insort_key fst (k, v) m))"
    by (auto simp: distinct_map distinct_insort set_insort_key inj_on_def)
  with None show ?thesis
    by (simp add: emplace_def)
next
  case (Some a)
  moreover assume "distinct (map fst m)"
  ultimately show ?thesis
    by (simp add: emplace_def)
qed

lemma set_erase: "set (erase k m) = {kv \<in> set m. fst kv \<noteq> k}"
  by (auto simp: erase_def)

lemma distinct_erase: "distinct (map fst m) \<Longrightarrow> distinct (map fst (erase k m))"
  by (simp add: erase_def distinct_map_filter)

lemma log_fields [simp]:
  "activities (log st) = activities st" "State.its (log st) = State.its st"
  "activitiesByType (log st) = activitiesByType st" "nextNode (log st) = nextNode st"
  by (simp_all add: log_def draw_def Let_def)

lemma draw_fields [simp]:
  "activities (draw st) = activities st" "State.its (draw st) = State.its st"
  "activitiesByType (draw st) = activitiesByType st" "nextNode (draw st) = nextNode st"
  by (simp_all add: draw_def Let_def)

lemma update_fields [simp]:
  "activities (update st) = activities st" "State.its (update st) = State.its st"
  "activitiesByType (update st) = activitiesByType st" "nextNode (update st) = nextNode st"
  by (simp_all add: update_def)

lemma setNode_fields [simp]:
  "State.its (setNode n i st) = State.its st"
  "activitiesByType (setNode n i st) = activitiesByType st"
  "nextNode (setNode n i st) = nextNode st"
  "map fst (activities (setNode n i st)) = map fst (activities st)"
  by (simp_all add: setNode_def comp_def)

lemma wfState_cong:
  "activities st' = activities st \<Longrightarrow> State.its st' = State.its st \<Longrightarrow>
   activitiesByType st' = activitiesByType st \<Longrightarrow> nextNode st' = nextNode st \<Longrightarrow>
   wfState st' = wfState st"
  by (simp add: wfState_def)

lemma wfState_log [simp]: "wfState (log st) = wfState st"
  by (rule wfState_cong) simp_all

lemma wfState_draw [simp]: "wfState (draw st) = wfState st"
  by (rule wfState_cong) simp_all

lemma wfState_update [simp]: "wfState (update st) = wfState st"
  by (rule wfState_cong) simp_all

text \<open>The state that \<^verbatim>\<open>startActivity\<close> returns.\<close>

lemma sameCounters_refl [simp]: "sameCounters i i"
  by (simp add: sameCounters_def)

lemma sameCounters_trans: "sameCounters i j \<Longrightarrow> sameCounters j k \<Longrightarrow> sameCounters i k"
  by (simp add: sameCounters_def)

lemma blockBuild_same: "blockBuild env ty flds i = Inr i' \<Longrightarrow> sameCounters i i' \<and> ignored i' = ignored i"
  by (auto simp: blockBuild_def sameCounters_def Let_def split: if_splits sum.splits)

lemma blockSubstitute_same: "blockSubstitute env ty flds i = Inr i' \<Longrightarrow> sameCounters i i' \<and> ignored i' = ignored i"
  by (auto simp: blockSubstitute_def sameCounters_def Let_def split: if_splits sum.splits)

lemma blockPostBuildHook_same: "blockPostBuildHook env ty flds i = Inr i' \<Longrightarrow> sameCounters i i' \<and> ignored i' = ignored i"
  by (auto simp: blockPostBuildHook_def sameCounters_def Let_def split: if_splits sum.splits)

lemma blockQueryPathInfo_same: "blockQueryPathInfo env ty flds i = Inr i' \<Longrightarrow> sameCounters i i' \<and> ignored i' = ignored i"
  by (auto simp: blockQueryPathInfo_def sameCounters_def Let_def split: if_splits sum.splits)

lemma blockFileTransfer_same: "blockFileTransfer st n ty flds par i = Some (Inr i') \<Longrightarrow> sameCounters i i'"
  by (auto simp: blockFileTransfer_def sameCounters_def Let_def split: if_splits sum.splits option.splits bool.splits)

lemma blockVisible_same: "blockVisible st ty par i = Some (Inr i') \<Longrightarrow> sameCounters i i' \<and> ignored i' = ignored i"
  by (auto simp: blockVisible_def sameCounters_def Let_def split: if_splits sum.splits option.splits bool.splits)

lemma startActivity_shape:
  assumes "startActivity env state act lvl ty str flds par = Some (Inr state')"
  shows "\<exists>state1 i. (state1 = state \<or> state1 = log state) \<and>
           sameCounters (newActInfo\<lparr>s := str, type := ty, parent := par\<rparr>) i \<and>
           state' = update (setNode (nextNode state1) i
                      (insertNode act ty (newActInfo\<lparr>s := str, type := ty, parent := par\<rparr>) state1))"
proof -
  let ?i0 = "newActInfo\<lparr>s := str, type := ty, parent := par\<rparr>"
  let ?state1 = "if lvl \<le> verbosity env \<and> str \<noteq> [] \<and> ty \<noteq> actBuildWaiting then log state else state"
  let ?n = "nextNode ?state1"
  let ?state2 = "insertNode act ty ?i0 ?state1"
  from assms obtain i1 i2 i3 i4 i5 i6 where b:
    "blockBuild env ty flds ?i0 = Inr i1"
    "blockSubstitute env ty flds i1 = Inr i2"
    "blockPostBuildHook env ty flds i2 = Inr i3"
    "blockQueryPathInfo env ty flds i3 = Inr i4"
    "blockFileTransfer (setNode ?n i4 ?state2) ?n ty flds par i4 = Some (Inr i5)"
    "blockVisible (setNode ?n i5 ?state2) ty par i5 = Some (Inr i6)"
    and st: "state' = update (setNode ?n (if ty = actBuild then i6\<lparr>startTime := Some (now env)\<rparr> else i6) ?state2)"
    unfolding startActivity_def Let_def
    by (auto split: sum.splits option.splits)
  let ?i7 = "if ty = actBuild then i6\<lparr>startTime := Some (now env)\<rparr> else i6"
  have "sameCounters ?i0 i6"
    using blockBuild_same[OF b(1)] blockSubstitute_same[OF b(2)] blockPostBuildHook_same[OF b(3)]
      blockQueryPathInfo_same[OF b(4)] blockFileTransfer_same[OF b(5)] blockVisible_same[OF b(6)]
    by (simp add: sameCounters_def)
  then have "sameCounters ?i0 ?i7" by (simp add: sameCounters_def)
  with st show ?thesis
    by (intro exI[of _ ?state1] exI[of _ ?i7]) simp
qed

lemma wf_nodes_distinct: "wfState st \<Longrightarrow> distinct (map fst (activities st))"
  by (simp add: wfState_def)

lemma wf_nodes_lt: "wfState st \<Longrightarrow> ni \<in> set (activities st) \<Longrightarrow> fst ni < nextNode st"
  by (simp add: wfState_def)

lemma wf_its_distinct: "wfState st \<Longrightarrow> distinct (map fst (State.its st))"
  by (simp add: wfState_def)

lemma wf_bt_distinct:
  "wfState st \<Longrightarrow> distinct (map fst (ActivitiesByType.its (activitiesByType st t)))"
  by (simp add: wfState_def)

lemma wf_its_valid: "wfState st \<Longrightarrow> an \<in> set (State.its st) \<Longrightarrow> snd an \<in> fst ` set (activities st)"
  by (simp add: wfState_def)

lemma wf_its_inj:
  "wfState st \<Longrightarrow> an \<in> set (State.its st) \<Longrightarrow> an' \<in> set (State.its st) \<Longrightarrow>
   snd an = snd an' \<Longrightarrow> fst an = fst an'"
  unfolding wfState_def by blast

lemma wf_bt_valid:
  "wfState st \<Longrightarrow> an \<in> set (ActivitiesByType.its (activitiesByType st t)) \<Longrightarrow>
   \<exists>i. (snd an, i) \<in> set (activities st) \<and> type i = t"
  unfolding wfState_def by blast

lemma wf_bt_its:
  "wfState st \<Longrightarrow> an \<in> set (ActivitiesByType.its (activitiesByType st t)) \<Longrightarrow>
   an' \<in> set (State.its st) \<Longrightarrow> snd an = snd an' \<Longrightarrow> fst an = fst an'"
  unfolding wfState_def by blast

lemma map_upd_absent:
  "\<forall>ni \<in> set xs. fst ni \<noteq> n \<Longrightarrow> map (\<lambda>mi. if fst mi = n then (n, i) else mi) xs = xs"
  by (induction xs) auto

lemma start_components:
  assumes "\<forall>ni \<in> set (activities st). fst ni < nextNode st"
  shows "activities (setNode (nextNode st) i (insertNode act ty i0 st))
           = activities st @ [(nextNode st, i)]"
    and "State.its (insertNode act ty i0 st) = emplace act (nextNode st) (State.its st)"
    and "activitiesByType (insertNode act ty i0 st)
           = (activitiesByType st)
               (ty := (activitiesByType st ty)
                  \<lparr>ActivitiesByType.its :=
                     emplace act (nextNode st) (ActivitiesByType.its (activitiesByType st ty))\<rparr>)"
    and "nextNode (insertNode act ty i0 st) = Suc (nextNode st)"
proof -
  have "\<forall>ni \<in> set (activities st). fst ni \<noteq> nextNode st"
    using assms by fastforce
  then show "activities (setNode (nextNode st) i (insertNode act ty i0 st))
           = activities st @ [(nextNode st, i)]"
    by (simp add: setNode_def insertNode_def Let_def map_upd_absent)
qed (simp_all add: setNode_def insertNode_def Let_def)


lemma emplace_cases: "an \<in> set (emplace k v m) \<Longrightarrow> an = (k, v) \<or> an \<in> set m"
  using set_emplace_subset [of k v m] by blast

lemma wfState_start:
  assumes wf: "wfState st" and ty: "type i = ty"
  shows "wfState (setNode (nextNode st) i (insertNode act ty i0 st))"
proof -
  let ?n = "nextNode st"
  let ?st' = "setNode ?n i (insertNode act ty i0 st)"
  have lt: "\<forall>ni \<in> set (activities st). fst ni < ?n"
    using wf_nodes_lt [OF wf] by blast
  note c = start_components [OF lt]
  have fresh: "?n \<notin> fst ` set (activities st)"
    using lt by force
  have its_old: "snd an \<noteq> ?n" if "an \<in> set (State.its st)" for an
    using wf_its_valid [OF wf that] fresh by metis
  have bt_old: "snd an \<noteq> ?n" if "an \<in> set (ActivitiesByType.its (activitiesByType st t))" for an t
  proof -
    from wf_bt_valid [OF wf that] obtain j where "(snd an, j) \<in> set (activities st)" by blast
    then have "snd an \<in> fst ` set (activities st)" by force
    with fresh show ?thesis by metis
  qed
  have bt_cases: "an = (act, ?n) \<and> t = ty \<or> an \<in> set (ActivitiesByType.its (activitiesByType st t))"
    if "an \<in> set (ActivitiesByType.its (activitiesByType ?st' t))" for an t
  proof (cases "t = ty")
    case True
    with that have "an \<in> set (emplace act ?n (ActivitiesByType.its (activitiesByType st ty)))"
      by (simp add: c)
    from emplace_cases [OF this] True show ?thesis by auto
  next
    case False
    with that show ?thesis by (simp add: c)
  qed
  have its_cases: "an = (act, ?n) \<or> an \<in> set (State.its st)"
    if "an \<in> set (State.its ?st')" for an
    using that emplace_cases by (simp add: c)
  have 1: "distinct (map fst (activities ?st'))"
    using wf_nodes_distinct [OF wf] fresh by (simp add: c)
  have 2: "\<forall>ni \<in> set (activities ?st'). fst ni < nextNode ?st'"
    using lt by (auto simp: c)
  have 3: "distinct (map fst (State.its ?st'))"
    using wf_its_distinct [OF wf] by (simp add: c distinct_emplace)
  have 4: "\<forall>t. distinct (map fst (ActivitiesByType.its (activitiesByType ?st' t)))"
    using wf_bt_distinct [OF wf] by (simp add: c distinct_emplace)
  have 5: "\<forall>an \<in> set (State.its ?st'). snd an \<in> fst ` set (activities ?st')"
  proof
    fix an assume "an \<in> set (State.its ?st')"
    from its_cases [OF this] show "snd an \<in> fst ` set (activities ?st')"
    proof
      assume "an = (act, ?n)" then show ?thesis by (simp add: c)
    next
      assume "an \<in> set (State.its st)"
      from wf_its_valid [OF wf this] show ?thesis by (simp add: c)
    qed
  qed
  have 6: "\<forall>an \<in> set (State.its ?st'). \<forall>an' \<in> set (State.its ?st').
        snd an = snd an' \<longrightarrow> fst an = fst an'"
  proof (intro ballI impI)
    fix an an'
    assume a: "an \<in> set (State.its ?st')" "an' \<in> set (State.its ?st')" "snd an = snd an'"
    from its_cases [OF a(1)] its_cases [OF a(2)] show "fst an = fst an'"
    proof (elim disjE)
      assume "an = (act, ?n)" "an' = (act, ?n)" then show ?thesis by simp
    next
      assume "an = (act, ?n)" "an' \<in> set (State.its st)"
      with its_old [of an'] a(3) show ?thesis by simp
    next
      assume "an \<in> set (State.its st)" "an' = (act, ?n)"
      with its_old [of an] a(3) show ?thesis by simp
    next
      assume "an \<in> set (State.its st)" "an' \<in> set (State.its st)"
      then show ?thesis using a(3) by (rule wf_its_inj [OF wf])
    qed
  qed
  have 7: "\<forall>t. \<forall>an \<in> set (ActivitiesByType.its (activitiesByType ?st' t)).
        \<exists>j. (snd an, j) \<in> set (activities ?st') \<and> type j = t"
  proof (intro allI ballI)
    fix t an assume "an \<in> set (ActivitiesByType.its (activitiesByType ?st' t))"
    from bt_cases [OF this] show "\<exists>j. (snd an, j) \<in> set (activities ?st') \<and> type j = t"
    proof
      assume "an = (act, ?n) \<and> t = ty"
      then show ?thesis using ty by (auto simp: c)
    next
      assume "an \<in> set (ActivitiesByType.its (activitiesByType st t))"
      from wf_bt_valid [OF wf this] show ?thesis by (auto simp: c)
    qed
  qed
  have 8: "\<forall>t. \<forall>an \<in> set (ActivitiesByType.its (activitiesByType ?st' t)).
        \<forall>an' \<in> set (State.its ?st'). snd an = snd an' \<longrightarrow> fst an = fst an'"
  proof (intro allI ballI impI)
    fix t an an'
    assume a: "an \<in> set (ActivitiesByType.its (activitiesByType ?st' t))"
      "an' \<in> set (State.its ?st')" "snd an = snd an'"
    from bt_cases [OF a(1)] its_cases [OF a(2)] show "fst an = fst an'"
    proof (elim disjE)
      assume "an = (act, ?n) \<and> t = ty" "an' = (act, ?n)" then show ?thesis by simp
    next
      assume "an = (act, ?n) \<and> t = ty" "an' \<in> set (State.its st)"
      with its_old [of an'] a(3) show ?thesis by simp
    next
      assume "an \<in> set (ActivitiesByType.its (activitiesByType st t))" "an' = (act, ?n)"
      with bt_old [of an t] a(3) show ?thesis by simp
    next
      assume "an \<in> set (ActivitiesByType.its (activitiesByType st t))" "an' \<in> set (State.its st)"
      then show ?thesis using a(3) by (rule wf_bt_its [OF wf])
    qed
  qed
  from 1 2 3 4 5 6 7 8 show ?thesis
    unfolding wfState_def by blast
qed

lemma wfState_startActivity:
  assumes "wfState st" and "startActivity env st act lvl ty str flds par = Some (Inr st')"
  shows "wfState st'"
proof -
  from startActivity_shape [OF assms(2)] obtain st1 i where
    s: "st1 = st \<or> st1 = log st"
      "sameCounters (newActInfo\<lparr>s := str, type := ty, parent := par\<rparr>) i"
      "st' = update (setNode (nextNode st1) i
               (insertNode act ty (newActInfo\<lparr>s := str, type := ty, parent := par\<rparr>) st1))"
    by blast
  from s(1) assms(1) have "wfState st1" by auto
  moreover from s(2) have "type i = ty" by (simp add: sameCounters_def)
  ultimately show ?thesis
    unfolding s(3) by (simp add: wfState_start)
qed

lemma map_upd_keys: "map fst (map (\<lambda>mi. if fst mi = n then (n, i) else mi) xs) = map fst xs"
  by (induction xs) auto

lemma map_upd_proj:
  assumes "distinct (map fst xs)" and "map_of xs n = Some i" and "g i' = g i"
  shows "map (\<lambda>mi. g (snd mi)) (map (\<lambda>mi. if fst mi = n then (n, i') else mi) xs)
           = map (\<lambda>mi. g (snd mi)) xs"
proof -
  have "g (snd (if fst mi = n then (n, i') else mi)) = g (snd mi)" if "mi \<in> set xs" for mi
  proof (cases "fst mi = n")
    case True
    with that have "(n, snd mi) \<in> set xs" by (metis prod.collapse)
    with assms(1,2) have "snd mi = i" by simp
    with True assms(3) show ?thesis by simp
  next
    case False
    then show ?thesis by simp
  qed
  then show ?thesis by (simp add: comp_def)
qed

lemma setNode_proj:
  assumes "wfState st" and "deref st n = Inr i" and "g i' = g i"
  shows "map (\<lambda>mi. g (snd mi)) (activities (setNode n i' st)) = map (\<lambda>mi. g (snd mi)) (activities st)"
proof -
  from assms(2) have "map_of (activities st) n = Some i"
    by (simp add: deref_def split: option.splits)
  from map_upd_proj [OF wf_nodes_distinct [OF assms(1)] this assms(3)] show ?thesis
    by (simp add: setNode_def)
qed

lemma registry_simps [simp]:
  "registry (update x) = registry x"
  "registry (log x) = registry x"
  "registry (draw x) = registry x"
  by (simp_all add: registry_def)

lemma r_fileLinked:
  "result env st act resFileLinked flds = Inr st' \<Longrightarrow> registry st' = registry st"
  by (auto simp: result_def split: option.splits sum.splits) (simp add: registry_def)

lemma r_untrusted:
  "result env st act resUntrustedPath flds = Inr st' \<Longrightarrow> registry st' = registry st"
  by (auto simp: result_def split: option.splits sum.splits) (simp add: registry_def)

lemma r_corrupted:
  "result env st act resCorruptedPath flds = Inr st' \<Longrightarrow> registry st' = registry st"
  by (auto simp: result_def split: option.splits sum.splits) (simp add: registry_def)


lemma r_logline:
  assumes "result env st act rty flds = Inr st'" and "rty = resBuildLogLine \<or> rty = resPostBuildLogLine"
    and "map_of (State.its st) act = Some n" and "deref st n = Inr i"
  shows "st' = st \<or> (\<exists>l. st' = log (setNode n (i\<lparr>lastLine := l\<rparr>) st)
                      \<or> st' = update (setNode n (i\<lparr>lastLine := l\<rparr>) st))"
  using assms by (auto simp: result_def Let_def split: sum.splits if_splits)

lemma r_phase:
  assumes "result env st act resSetPhase flds = Inr st'"
    and "map_of (State.its st) act = Some n" and "deref st n = Inr i"
  shows "\<exists>p. st' = update (setNode n (i\<lparr>phase := p\<rparr>) st)"
  using assms by (auto simp: result_def Let_def split: sum.splits if_splits)

lemma r_progress:
  assumes "result env st act resProgress flds = Inr st'"
    and "map_of (State.its st) act = Some n" and "deref st n = Inr i"
  shows "(ignored i \<and> st' = st) \<or> (\<exists>d e r f. \<not> ignored i \<and>
               st' = update (setNode n
                 (i\<lparr>ActInfo.done := d, ActInfo.expected := e,
                    ActInfo.running := r, ActInfo.failed := f\<rparr>) st))"
  using assms by (auto simp: result_def Let_def split: sum.splits if_splits)

lemma r_expected:
  assumes "result env st act resSetExpected flds = Inr st'"
    and "map_of (State.its st) act = Some n" and "deref st n = Inr i"
  shows "(ignored i \<and> st' = st) \<or> (\<exists>k v. \<not> ignored i \<and>
               st' = update (setNode n
                 (i\<lparr>expectedByType := setExpected k v (expectedByType i)\<rparr>)
                 (st\<lparr>activitiesByType := (activitiesByType st)
                      (k := (activitiesByType st k)
                         \<lparr>ActivitiesByType.expected :=
                            ActivitiesByType.expected (activitiesByType st k)
                              - lookupExpected (expectedByType i) k + v\<rparr>)\<rparr>)))"
  using assms by (auto simp: result_def Let_def split: sum.splits if_splits)

lemma r_pending:
  assumes "result env st act rty flds = Inr st'"
    and "rty = resExpectBuild \<or> rty = resUnexpectBuild \<or> rty = resExpectSubstitution
         \<or> rty = resUnexpectSubstitution"
    and "map_of (State.its st) act = Some n" and "deref st n = Inr i"
  shows "\<exists>b c. st' = setNode n (i\<lparr>buildsRemaining := b, substitutionsRemaining := c\<rparr>) st"
proof -
  have same: "i\<lparr>buildsRemaining := b\<rparr> = i\<lparr>buildsRemaining := b, substitutionsRemaining := substitutionsRemaining i\<rparr>"
    "i\<lparr>substitutionsRemaining := c\<rparr> = i\<lparr>buildsRemaining := buildsRemaining i, substitutionsRemaining := c\<rparr>" for b c
    by simp_all
  from assms(2) show ?thesis
  proof (elim disjE)
    assume "rty = resExpectBuild"
    with assms(1,3,4) obtain p where "st' = setNode n (i\<lparr>buildsRemaining := insert p (buildsRemaining i)\<rparr>) st"
      by (auto simp: result_def split: sum.splits)
    then show ?thesis using same(1) by metis
  next
    assume "rty = resUnexpectBuild"
    with assms(1,3,4) obtain p where "st' = setNode n (i\<lparr>buildsRemaining := buildsRemaining i - {p}\<rparr>) st"
      by (auto simp: result_def split: sum.splits)
    then show ?thesis using same(1) by metis
  next
    assume "rty = resExpectSubstitution"
    with assms(1,3,4) obtain p where "st' = setNode n (i\<lparr>substitutionsRemaining := insert p (substitutionsRemaining i)\<rparr>) st"
      by (auto simp: result_def split: sum.splits)
    then show ?thesis using same(2) by metis
  next
    assume "rty = resUnexpectSubstitution"
    with assms(1,3,4) obtain p where "st' = setNode n (i\<lparr>substitutionsRemaining := substitutionsRemaining i - {p}\<rparr>) st"
      by (auto simp: result_def split: sum.splits)
    then show ?thesis using same(2) by metis
  qed
qed

lemma r_other:
  assumes "result env st act rty flds = Inr st'"
    and "rty \<notin> {resFileLinked, resUntrustedPath, resCorruptedPath, resBuildLogLine,
         resPostBuildLogLine, resSetPhase, resProgress, resSetExpected, resExpectBuild,
         resUnexpectBuild, resExpectSubstitution, resUnexpectSubstitution}"
  shows "st' = st"
  using assms by (auto simp: result_def split: option.splits sum.splits)


text \<open>What \<^verbatim>\<open>result\<close> does to the registry: one of four things.\<close>

lemma result_shape:
  assumes "result env st act rty flds = Inr st'"
  shows "\<exists>n i. map_of (State.its st) act = Some n \<and> deref st n = Inr i \<and>
     (registry st' = registry st
      \<or> (\<exists>i'. sameCounters i i' \<and> ignored i' = ignored i \<and>
               registry st' = registry (setNode n i' st))
      \<or> (\<exists>d e r f. \<not> ignored i \<and>
               registry st' = registry (setNode n
                 (i\<lparr>ActInfo.done := d, ActInfo.expected := e,
                    ActInfo.running := r, ActInfo.failed := f\<rparr>) st))
      \<or> (\<exists>k v. \<not> ignored i \<and>
               registry st' = registry (setNode n
                 (i\<lparr>expectedByType := setExpected k v (expectedByType i)\<rparr>)
                 (st\<lparr>activitiesByType := (activitiesByType st)
                      (k := (activitiesByType st k)
                         \<lparr>ActivitiesByType.expected :=
                            ActivitiesByType.expected (activitiesByType st k)
                              - lookupExpected (expectedByType i) k + v\<rparr>)\<rparr>))))"
proof -
  from assms obtain n where n: "map_of (State.its st) act = Some n"
    by (auto simp: result_def split: option.splits)
  with assms obtain i where i: "deref st n = Inr i"
    by (auto simp: result_def split: sum.splits)
  let ?A = "registry st' = registry st"
  let ?B = "\<exists>i'. sameCounters i i' \<and> ignored i' = ignored i \<and>
               registry st' = registry (setNode n i' st)"
  let ?C = "\<exists>d e r f. \<not> ignored i \<and>
               registry st' = registry (setNode n
                 (i\<lparr>ActInfo.done := d, ActInfo.expected := e,
                    ActInfo.running := r, ActInfo.failed := f\<rparr>) st)"
  let ?D = "\<exists>k v. \<not> ignored i \<and>
               registry st' = registry (setNode n
                 (i\<lparr>expectedByType := setExpected k v (expectedByType i)\<rparr>)
                 (st\<lparr>activitiesByType := (activitiesByType st)
                      (k := (activitiesByType st k)
                         \<lparr>ActivitiesByType.expected :=
                            ActivitiesByType.expected (activitiesByType st k)
                              - lookupExpected (expectedByType i) k + v\<rparr>)\<rparr>))"
  consider
      (plain) "rty = resFileLinked \<or> rty = resUntrustedPath \<or> rty = resCorruptedPath"
    | (line) "rty = resBuildLogLine \<or> rty = resPostBuildLogLine"
    | (phase) "rty = resSetPhase"
    | (progress) "rty = resProgress"
    | (expected) "rty = resSetExpected"
    | (pending) "rty = resExpectBuild \<or> rty = resUnexpectBuild \<or> rty = resExpectSubstitution
         \<or> rty = resUnexpectSubstitution"
    | (other) "rty \<notin> {resFileLinked, resUntrustedPath, resCorruptedPath, resBuildLogLine,
         resPostBuildLogLine, resSetPhase, resProgress, resSetExpected, resExpectBuild,
         resUnexpectBuild, resExpectSubstitution, resUnexpectSubstitution}"
    by blast
  then have "?A \<or> ?B \<or> ?C \<or> ?D"
  proof cases
    case plain
    with assms have ?A
      using r_fileLinked r_untrusted r_corrupted by blast
    then show ?thesis by blast
  next
    case line
    have "?A \<or> (\<exists>l. registry st' = registry (setNode n (i\<lparr>lastLine := l\<rparr>) st))"
      using r_logline [OF assms line n i]
    proof (elim disjE exE)
      assume "st' = st" then show ?thesis by simp
    next
      fix l assume "st' = log (setNode n (i\<lparr>lastLine := l\<rparr>) st)"
      then have "registry st' = registry (setNode n (i\<lparr>lastLine := l\<rparr>) st)" by simp
      then show ?thesis by blast
    next
      fix l assume "st' = update (setNode n (i\<lparr>lastLine := l\<rparr>) st)"
      then have "registry st' = registry (setNode n (i\<lparr>lastLine := l\<rparr>) st)" by simp
      then show ?thesis by blast
    qed
    moreover have "sameCounters i (i\<lparr>lastLine := l\<rparr>) \<and> ignored (i\<lparr>lastLine := l\<rparr>) = ignored i" for l
      by (simp add: sameCounters_def)
    ultimately have "?A \<or> ?B" by blast
    then show ?thesis by blast
  next
    case phase
    from r_phase [OF assms [unfolded phase] n i] obtain p0 where
      "st' = update (setNode n (i\<lparr>phase := p0\<rparr>) st)" by blast
    then have "registry st' = registry (setNode n (i\<lparr>phase := p0\<rparr>) st)" by simp
    then have "\<exists>p. registry st' = registry (setNode n (i\<lparr>phase := p\<rparr>) st)" by blast
    moreover have "sameCounters i (i\<lparr>phase := p\<rparr>) \<and> ignored (i\<lparr>phase := p\<rparr>) = ignored i" for p
      by (simp add: sameCounters_def)
    ultimately have ?B by blast
    then show ?thesis by blast
  next
    case progress
    have "?A \<or> ?C"
      using r_progress [OF assms [unfolded progress] n i]
    proof (elim disjE exE conjE)
      assume "st' = st" then show ?thesis by simp
    next
      fix d e r f
      assume "\<not> ignored i" and "st' = update (setNode n
                 (i\<lparr>ActInfo.done := d, ActInfo.expected := e,
                    ActInfo.running := r, ActInfo.failed := f\<rparr>) st)"
      then have "\<not> ignored i \<and> registry st' = registry (setNode n
                 (i\<lparr>ActInfo.done := d, ActInfo.expected := e,
                    ActInfo.running := r, ActInfo.failed := f\<rparr>) st)" by simp
      then show ?thesis by blast
    qed
    then show ?thesis by blast
  next
    case expected
    have "?A \<or> ?D"
      using r_expected [OF assms [unfolded expected] n i]
    proof (elim disjE exE conjE)
      assume "st' = st" then show ?thesis by simp
    next
      fix k v
      assume "\<not> ignored i" and "st' = update (setNode n
                 (i\<lparr>expectedByType := setExpected k v (expectedByType i)\<rparr>)
                 (st\<lparr>activitiesByType := (activitiesByType st)
                      (k := (activitiesByType st k)
                         \<lparr>ActivitiesByType.expected :=
                            ActivitiesByType.expected (activitiesByType st k)
                              - lookupExpected (expectedByType i) k + v\<rparr>)\<rparr>))"
      then have "\<not> ignored i \<and> registry st' = registry (setNode n
                 (i\<lparr>expectedByType := setExpected k v (expectedByType i)\<rparr>)
                 (st\<lparr>activitiesByType := (activitiesByType st)
                      (k := (activitiesByType st k)
                         \<lparr>ActivitiesByType.expected :=
                            ActivitiesByType.expected (activitiesByType st k)
                              - lookupExpected (expectedByType i) k + v\<rparr>)\<rparr>))" by simp
      then show ?thesis by blast
    qed
    then show ?thesis by blast
  next
    case pending
    from r_pending [OF assms pending n i] obtain b c where
      "st' = setNode n (i\<lparr>buildsRemaining := b, substitutionsRemaining := c\<rparr>) st"
      by blast
    then have
      "registry st' = registry (setNode n (i\<lparr>buildsRemaining := b, substitutionsRemaining := c\<rparr>) st)"
      by simp
    moreover have "sameCounters i (i\<lparr>buildsRemaining := b, substitutionsRemaining := c\<rparr>)
        \<and> ignored (i\<lparr>buildsRemaining := b, substitutionsRemaining := c\<rparr>) = ignored i"
      by (simp add: sameCounters_def)
    ultimately have ?B by blast
    then show ?thesis by blast
  next
    case other
    from r_other [OF assms other] have ?A by simp
    then show ?thesis by blast
  qed
  with n i show ?thesis by blast
qed

lemma wfState_registry: "registry st' = registry st \<Longrightarrow> wfState st' = wfState st"
  by (rule wfState_cong) (simp_all add: registry_def)

lemma wfStateI:
  assumes "distinct (map fst (activities st))"
    and "\<forall>ni \<in> set (activities st). fst ni < nextNode st"
    and "distinct (map fst (State.its st))"
    and "\<forall>t. distinct (map fst (ActivitiesByType.its (activitiesByType st t)))"
    and "\<forall>an \<in> set (State.its st). snd an \<in> fst ` set (activities st)"
    and "\<forall>an \<in> set (State.its st). \<forall>an' \<in> set (State.its st).
        snd an = snd an' \<longrightarrow> fst an = fst an'"
    and "\<forall>t. \<forall>an \<in> set (ActivitiesByType.its (activitiesByType st t)).
        \<exists>i. (snd an, i) \<in> set (activities st) \<and> type i = t"
    and "\<forall>t. \<forall>an \<in> set (ActivitiesByType.its (activitiesByType st t)).
        \<forall>an' \<in> set (State.its st). snd an = snd an' \<longrightarrow> fst an = fst an'"
  shows "wfState st"
  unfolding wfState_def using assms by (intro conjI) assumption+

lemma in_setNode:
  "(m, j) \<in> set (activities st) \<Longrightarrow>
   (m, if m = n then i' else j) \<in> set (activities (setNode n i' st))"
  by (force simp: setNode_def)

lemma wfState_setNode:
  assumes wf: "wfState st" and i: "deref st n = Inr i" and ty: "type i' = type i"
  shows "wfState (setNode n i' st)"
proof -
  let ?st' = "setNode n i' st"
  have keys: "fst ` set (activities ?st') = fst ` set (activities st)"
  proof -
    have "set (map fst (activities ?st')) = set (map fst (activities st))"
      by (simp only: setNode_fields(4))
    then show ?thesis by (simp only: set_map)
  qed
  from i have mi: "map_of (activities st) n = Some i"
    by (simp add: deref_def split: option.splits)
  have 1: "distinct (map fst (activities ?st'))"
    using wf_nodes_distinct [OF wf] by simp
  have 2: "\<forall>ni \<in> set (activities ?st'). fst ni < nextNode ?st'"
  proof
    fix ni assume "ni \<in> set (activities ?st')"
    then have "fst ni \<in> fst ` set (activities st)" using keys by blast
    then obtain ni' where "ni' \<in> set (activities st)" "fst ni' = fst ni" by force
    with wf_nodes_lt [OF wf, of ni'] show "fst ni < nextNode ?st'" by simp
  qed
  have 3: "distinct (map fst (State.its ?st'))"
    using wf_its_distinct [OF wf] by simp
  have 4: "\<forall>t. distinct (map fst (ActivitiesByType.its (activitiesByType ?st' t)))"
    using wf_bt_distinct [OF wf] by simp
  have 5: "\<forall>an \<in> set (State.its ?st'). snd an \<in> fst ` set (activities ?st')"
    using wf_its_valid [OF wf] keys by simp
  have 6: "\<forall>an \<in> set (State.its ?st'). \<forall>an' \<in> set (State.its ?st').
        snd an = snd an' \<longrightarrow> fst an = fst an'"
  proof (intro ballI impI)
    fix an an'
    assume "an \<in> set (State.its ?st')" "an' \<in> set (State.its ?st')" "snd an = snd an'"
    then show "fst an = fst an'"
      using wf_its_inj [OF wf, of an an'] by simp
  qed
  have 7: "\<forall>t. \<forall>an \<in> set (ActivitiesByType.its (activitiesByType ?st' t)).
        \<exists>j. (snd an, j) \<in> set (activities ?st') \<and> type j = t"
  proof (intro allI ballI)
    fix t an assume "an \<in> set (ActivitiesByType.its (activitiesByType ?st' t))"
    then have "an \<in> set (ActivitiesByType.its (activitiesByType st t))" by simp
    from wf_bt_valid [OF wf this] obtain j where
      j: "(snd an, j) \<in> set (activities st)" "type j = t" by blast
    have "type (if snd an = n then i' else j) = t"
    proof (cases "snd an = n")
      case True
      with j(1) wf_nodes_distinct [OF wf] mi have "j = i" by simp
      with True ty j(2) show ?thesis by simp
    next
      case False
      with j(2) show ?thesis by simp
    qed
    with in_setNode [OF j(1), of n i']
    show "\<exists>j. (snd an, j) \<in> set (activities ?st') \<and> type j = t" by blast
  qed
  have 8: "\<forall>t. \<forall>an \<in> set (ActivitiesByType.its (activitiesByType ?st' t)).
        \<forall>an' \<in> set (State.its ?st'). snd an = snd an' \<longrightarrow> fst an = fst an'"
  proof (intro allI ballI impI)
    fix t an an'
    assume "an \<in> set (ActivitiesByType.its (activitiesByType ?st' t))"
      "an' \<in> set (State.its ?st')" "snd an = snd an'"
    then show "fst an = fst an'"
      using wf_bt_its [OF wf, of an t an'] by simp
  qed
  show ?thesis
    by (rule wfStateI [OF 1 2 3 4 5 6 7 8])
qed

lemma wfState_same_index:
  assumes "activities st' = activities st" and "State.its st' = State.its st"
    and "\<And>t. ActivitiesByType.its (activitiesByType st' t)
              = ActivitiesByType.its (activitiesByType st t)"
    and "nextNode st' = nextNode st"
  shows "wfState st' = wfState st"
  unfolding wfState_def by (simp only: assms)

lemma wfState_counters:
  assumes "wfState st" and "\<And>t. ActivitiesByType.its (bt t) = ActivitiesByType.its (activitiesByType st t)"
  shows "wfState (st\<lparr>activitiesByType := bt\<rparr>)"
proof -
  have "wfState (st\<lparr>activitiesByType := bt\<rparr>) = wfState st"
    by (rule wfState_same_index) (simp_all add: assms(2))
  with assms(1) show ?thesis by simp
qed

lemma wfState_result:
  assumes wf: "wfState st" and r: "result env st act rty flds = Inr st'"
  shows "wfState st'"
proof -
  from result_shape [OF r] obtain n i where
    n: "map_of (State.its st) act = Some n" and i: "deref st n = Inr i" and
    c: "registry st' = registry st
      \<or> (\<exists>i'. sameCounters i i' \<and> ignored i' = ignored i \<and>
               registry st' = registry (setNode n i' st))
      \<or> (\<exists>d e r f. \<not> ignored i \<and>
               registry st' = registry (setNode n
                 (i\<lparr>ActInfo.done := d, ActInfo.expected := e,
                    ActInfo.running := r, ActInfo.failed := f\<rparr>) st))
      \<or> (\<exists>k v. \<not> ignored i \<and>
               registry st' = registry (setNode n
                 (i\<lparr>expectedByType := setExpected k v (expectedByType i)\<rparr>)
                 (st\<lparr>activitiesByType := (activitiesByType st)
                      (k := (activitiesByType st k)
                         \<lparr>ActivitiesByType.expected :=
                            ActivitiesByType.expected (activitiesByType st k)
                              - lookupExpected (expectedByType i) k + v\<rparr>)\<rparr>)))"
    by blast
  from c show ?thesis
  proof (elim disjE exE conjE)
    assume e: "registry st' = registry st"
    from wf wfState_registry [OF e] show ?thesis by simp
  next
    fix i' assume s: "sameCounters i i'" and e: "registry st' = registry (setNode n i' st)"
    from s have "type i' = type i" by (simp add: sameCounters_def)
    from wfState_setNode [OF wf i this] wfState_registry [OF e] show ?thesis by simp
  next
    fix d e r f
    assume e: "registry st' = registry (setNode n
                 (i\<lparr>ActInfo.done := d, ActInfo.expected := e,
                    ActInfo.running := r, ActInfo.failed := f\<rparr>) st)"
    have "wfState (setNode n (i\<lparr>ActInfo.done := d, ActInfo.expected := e,
                    ActInfo.running := r, ActInfo.failed := f\<rparr>) st)"
      by (rule wfState_setNode [OF wf i]) simp
    with wfState_registry [OF e] show ?thesis by simp
  next
    fix k v
    let ?st1 = "st\<lparr>activitiesByType := (activitiesByType st)
                      (k := (activitiesByType st k)
                         \<lparr>ActivitiesByType.expected :=
                            ActivitiesByType.expected (activitiesByType st k)
                              - lookupExpected (expectedByType i) k + v\<rparr>)\<rparr>"
    assume e: "registry st' = registry (setNode n
                 (i\<lparr>expectedByType := setExpected k v (expectedByType i)\<rparr>) ?st1)"
    have "wfState ?st1"
      by (rule wfState_counters [OF wf]) simp
    moreover have "deref ?st1 n = Inr i"
      using i by (simp add: deref_def)
    ultimately have "wfState (setNode n (i\<lparr>expectedByType := setExpected k v (expectedByType i)\<rparr>) ?st1)"
      by (rule wfState_setNode) simp
    with wfState_registry [OF e] show ?thesis by simp
  qed
qed

lemma retractExpected_its [simp]:
  "ActivitiesByType.its (retractExpected ebt m t) = ActivitiesByType.its (m t)"
  unfolding retractExpected_def
  by (induction ebt arbitrary: m) auto

lemma retractExpected_done [simp]:
  "ActivitiesByType.done (retractExpected ebt m t) = ActivitiesByType.done (m t)"
  "ActivitiesByType.failed (retractExpected ebt m t) = ActivitiesByType.failed (m t)"
  unfolding retractExpected_def
  by (induction ebt arbitrary: m) auto

text \<open>The state that \<^verbatim>\<open>stopActivity\<close> returns for an open id.\<close>

lemma stopActivity_shape:
  assumes "stopActivity st act = Inr st'" and "map_of (State.its st) act = Some n"
  shows "\<exists>i. deref st n = Inr i \<and>
           activities st' = filter (\<lambda>mi. fst mi \<noteq> n) (activities st) \<and>
           State.its st' = erase act (State.its st) \<and>
           nextNode st' = nextNode st \<and>
           (\<forall>t. ActivitiesByType.its (activitiesByType st' t) =
                  (if t = type i then erase act (ActivitiesByType.its (activitiesByType st t))
                   else ActivitiesByType.its (activitiesByType st t)))"
  using assms
  by (auto simp: stopActivity_def Let_def eraseNode_def split: sum.splits)

lemma wfState_stopActivity:
  assumes wf: "wfState st" and s: "stopActivity st act = Inr st'"
  shows "wfState st'"
proof (cases "map_of (State.its st) act")
  case None
  with s have "st' = update st" by (simp add: stopActivity_def)
  with wf show ?thesis by simp
next
  case (Some n)
  from stopActivity_shape [OF s Some] obtain i where i: "deref st n = Inr i"
    and acts: "activities st' = filter (\<lambda>mi. fst mi \<noteq> n) (activities st)"
    and its: "State.its st' = erase act (State.its st)"
    and nn: "nextNode st' = nextNode st"
    and bt: "\<And>t. ActivitiesByType.its (activitiesByType st' t) =
                  (if t = type i then erase act (ActivitiesByType.its (activitiesByType st t))
                   else ActivitiesByType.its (activitiesByType st t))"
    by blast
  from i have mi: "map_of (activities st) n = Some i"
    by (simp add: deref_def split: option.splits)
  from Some have an: "(act, n) \<in> set (State.its st)"
    by (rule map_of_SomeD)
  have its_sub: "x \<in> set (State.its st) \<and> fst x \<noteq> act" if "x \<in> set (State.its st')" for x
    using that by (simp add: its set_erase)
  have bt_sub: "x \<in> set (ActivitiesByType.its (activitiesByType st t)) \<and> (t = type i \<longrightarrow> fst x \<noteq> act)"
    if "x \<in> set (ActivitiesByType.its (activitiesByType st' t))" for x t
    using that by (auto simp: bt set_erase split: if_splits)
  have its_not_n: "snd x \<noteq> n" if "x \<in> set (State.its st')" for x
  proof
    assume "snd x = n"
    with its_sub [OF that] an wf_its_inj [OF wf, of x "(act, n)"] show False by simp
  qed
  have bt_not_n: "snd x \<noteq> n" if "x \<in> set (ActivitiesByType.its (activitiesByType st' t))" for x t
  proof
    assume e: "snd x = n"
    from bt_sub [OF that] have x: "x \<in> set (ActivitiesByType.its (activitiesByType st t))"
      and na: "t = type i \<longrightarrow> fst x \<noteq> act" by simp_all
    from wf_bt_valid [OF wf x] e obtain j where "(n, j) \<in> set (activities st)" "type j = t"
      by auto
    with wf_nodes_distinct [OF wf] mi have "t = type i" by simp
    moreover from wf_bt_its [OF wf x an] e have "fst x = act" by simp
    ultimately show False using na by simp
  qed
  have 1: "distinct (map fst (activities st'))"
    using wf_nodes_distinct [OF wf] by (simp add: acts distinct_map_filter)
  have 2: "\<forall>ni \<in> set (activities st'). fst ni < nextNode st'"
    using wf_nodes_lt [OF wf] by (simp add: acts nn)
  have 3: "distinct (map fst (State.its st'))"
    using wf_its_distinct [OF wf] by (simp add: its distinct_erase)
  have 4: "\<forall>t. distinct (map fst (ActivitiesByType.its (activitiesByType st' t)))"
    using wf_bt_distinct [OF wf] by (simp add: bt distinct_erase)
  have 5: "\<forall>x \<in> set (State.its st'). snd x \<in> fst ` set (activities st')"
  proof
    fix x assume x: "x \<in> set (State.its st')"
    from its_sub [OF x] wf_its_valid [OF wf] have "snd x \<in> fst ` set (activities st)" by blast
    then obtain mi where "mi \<in> set (activities st)" "fst mi = snd x" by force
    with its_not_n [OF x] have "mi \<in> set (activities st')" by (simp add: acts)
    with \<open>fst mi = snd x\<close> show "snd x \<in> fst ` set (activities st')" by force
  qed
  have 6: "\<forall>x \<in> set (State.its st'). \<forall>y \<in> set (State.its st').
        snd x = snd y \<longrightarrow> fst x = fst y"
  proof (intro ballI impI)
    fix x y assume "x \<in> set (State.its st')" "y \<in> set (State.its st')" "snd x = snd y"
    with its_sub [of x] its_sub [of y] show "fst x = fst y"
      using wf_its_inj [OF wf, of x y] by simp
  qed
  have 7: "\<forall>t. \<forall>x \<in> set (ActivitiesByType.its (activitiesByType st' t)).
        \<exists>j. (snd x, j) \<in> set (activities st') \<and> type j = t"
  proof (intro allI ballI)
    fix t x assume x: "x \<in> set (ActivitiesByType.its (activitiesByType st' t))"
    from bt_sub [OF x] wf_bt_valid [OF wf, of x t] obtain j where
      "(snd x, j) \<in> set (activities st)" "type j = t" by blast
    with bt_not_n [OF x] show "\<exists>j. (snd x, j) \<in> set (activities st') \<and> type j = t"
      by (auto simp: acts)
  qed
  have 8: "\<forall>t. \<forall>x \<in> set (ActivitiesByType.its (activitiesByType st' t)).
        \<forall>y \<in> set (State.its st'). snd x = snd y \<longrightarrow> fst x = fst y"
  proof (intro allI ballI impI)
    fix t x y
    assume "x \<in> set (ActivitiesByType.its (activitiesByType st' t))"
      "y \<in> set (State.its st')" "snd x = snd y"
    with bt_sub [of x t] its_sub [of y] show "fst x = fst y"
      using wf_bt_its [OF wf, of x t y] by simp
  qed
  show ?thesis
    by (rule wfStateI [OF 1 2 3 4 5 6 7 8])
qed

lemma wfState_newState: "wfState (newState env isTTY)"
  by (simp add: wfState_def newState_def initState_def resetHelp_def removeStatusLines_def lineLess_def newActivitiesByType_def)

lemma reachable_wfState: "reachable st \<Longrightarrow> wfState st"
proof (induction rule: reachable.induct)
  case (init env isTTY)
  show ?case by (rule wfState_newState)
next
  case (step state env ev state')
  from step.hyps(2) step.IH show ?case
  proof (cases ev)
    case (StartActivity act lvl ty str flds par)
    with step.hyps(2) step.IH show ?thesis
      by (simp add: wfState_startActivity)
  next
    case (StopActivity act)
    with step.hyps(2) step.IH show ?thesis
      by (simp add: wfState_stopActivity)
  next
    case (Result act rty flds)
    with step.hyps(2) step.IH show ?thesis
      by (simp add: wfState_result)
  next
    case Draw
    with step.hyps(2) step.IH show ?thesis
      by auto
  qed
qed

subsection \<open>The rollup\<close>

lemma unitsOf_Nil [simp]: "unitsOf st [] = []"
  by (simp add: unitsOf_def)

lemma unitsOf_Cons:
  "map_of (activities st) (snd j) = Some i \<Longrightarrow>
   unitsOf st (j # js) = (if ignored i then unitsOf st js else i # unitsOf st js)"
  by (simp add: unitsOf_def)

lemma statsLoop_sums:
  assumes "\<forall>j \<in> set js. \<exists>i. map_of (activities st) (snd j) = Some i"
  shows "statsLoop st js acc =
     Inr \<lparr> ActivityStats.done = ActivityStats.done acc + sum_list (map ActInfo.done (unitsOf st js)),
           ActivityStats.expected =
             ActivityStats.expected acc + sum_list (map ActInfo.expected (unitsOf st js)),
           ActivityStats.running =
             ActivityStats.running acc + sum_list (map ActInfo.running (unitsOf st js)),
           ActivityStats.failed =
             ActivityStats.failed acc + sum_list (map ActInfo.failed (unitsOf st js)),
           left = left acc +
             sum_list (map (\<lambda>j. if ActInfo.done j < ActInfo.expected j
                                then ActInfo.expected j - ActInfo.done j else 0)
                           (unitsOf st js)) \<rparr>"
  using assms
proof (induction js arbitrary: acc)
  case Nil
  show ?case by simp
next
  case (Cons j js)
  from Cons.prems obtain i where i: "map_of (activities st) (snd j) = Some i"
    by auto
  from Cons.prems have rest: "\<forall>j \<in> set js. \<exists>i. map_of (activities st) (snd j) = Some i"
    by simp
  show ?case
  proof (cases "ignored i")
    case True
    with i Cons.IH [OF rest, of acc] show ?thesis
      by (simp add: deref_def unitsOf_Cons)
  next
    case False
    with i Cons.IH [OF rest, of "addStats i acc"] show ?thesis
      by (simp add: deref_def unitsOf_Cons addStats_def add.assoc)
  qed
qed

lemma liveUnits_unitsOf:
  "liveUnits st k = unitsOf st (ActivitiesByType.its (activitiesByType st k))"
  by (simp add: liveUnits_def unitsOf_def)

lemma wf_bt_deref:
  assumes "wfState st" and "j \<in> set (ActivitiesByType.its (activitiesByType st k))"
  shows "\<exists>i. map_of (activities st) (snd j) = Some i"
proof -
  from wf_bt_valid [OF assms] obtain i where "(snd j, i) \<in> set (activities st)" by blast
  with wf_nodes_distinct [OF assms(1)] have "map_of (activities st) (snd j) = Some i" by simp
  then show ?thesis by blast
qed

text \<open>
  C1 (as amended).  In every reachable state and for every kind \<open>k\<close>,
  \<^verbatim>\<open>getActivityStats\<close> returns: done = the rollup's cumulative done plus the sum of done
  over the open units of kind \<open>k\<close> that are not ignored; failed = cumulative failed plus
  the sum of their failed; running = the sum of their running; left = the sum over them
  of \<open>expected - done\<close> where that is positive and \<open>0\<close> otherwise; and expected = the
  larger of the directly set expected and the sum of the cumulative done and the units'
  expected.  All sums are in 64-bit unsigned arithmetic.
\<close>

theorem rollup_reachable:
  assumes "reachable st"
  shows "getActivityStats st (activitiesByType st k) =
     Inr \<lparr> ActivityStats.done =
             ActivitiesByType.done (activitiesByType st k)
             + sum_list (map ActInfo.done (liveUnits st k)),
           ActivityStats.expected =
             max (ActivitiesByType.done (activitiesByType st k)
                  + sum_list (map ActInfo.expected (liveUnits st k)))
                 (ActivitiesByType.expected (activitiesByType st k)),
           ActivityStats.running = sum_list (map ActInfo.running (liveUnits st k)),
           ActivityStats.failed =
             ActivitiesByType.failed (activitiesByType st k)
             + sum_list (map ActInfo.failed (liveUnits st k)),
           left =
             sum_list (map (\<lambda>j. if ActInfo.done j < ActInfo.expected j
                                then ActInfo.expected j - ActInfo.done j else 0)
                           (liveUnits st k)) \<rparr>"
proof -
  from assms have wf: "wfState st" by (rule reachable_wfState)
  have "\<forall>j \<in> set (ActivitiesByType.its (activitiesByType st k)).
          \<exists>i. map_of (activities st) (snd j) = Some i"
    using wf_bt_deref [OF wf] by blast
  from statsLoop_sums [OF this] show ?thesis
    by (simp add: getActivityStats_def liveUnits_unitsOf)
qed

lemma run_reachable:
  "run env st evs = Some (Inr st') \<Longrightarrow> reachable st \<Longrightarrow> reachable st'"
proof (induction evs arbitrary: st)
  case Nil
  then show ?case by simp
next
  case (Cons ev evs)
  from Cons.prems(1) obtain st1 where 1: "apply_event env st ev = Some (Inr st1)"
    and 2: "run env st1 evs = Some (Inr st')"
    by (auto split: option.splits sum.splits)
  from Cons.prems(2) 1 have "reachable st1" by (rule reachable.step)
  with 2 show ?case by (rule Cons.IH)
qed

theorem rollup_reachable_witness:
  "case run exampleEnv (newState exampleEnv True)
          [StartActivity 1 0 actBuilds [] [] 0,
           Result 1 resProgress [tInt 5, tInt 5, tInt 0, tInt 0],
           StopActivity 1,
           StartActivity 2 0 actBuilds [] [] 0,
           Result 2 resProgress [tInt 1, tInt 3, tInt 1, tInt 0]] of
     Some (Inr st) \<Rightarrow>
       reachable st \<and>
       getActivityStats st (activitiesByType st actBuilds) =
         Inr \<lparr> ActivityStats.done = 6, ActivityStats.expected = 8,
               ActivityStats.running = 1, ActivityStats.failed = 0, left = 2 \<rparr>
   | _ \<Rightarrow> False"
proof -
  let ?evs = "[StartActivity 1 0 actBuilds [] [] 0,
           Result 1 resProgress [tInt 5, tInt 5, tInt 0, tInt 0],
           StopActivity 1,
           StartActivity 2 0 actBuilds [] [] 0,
           Result 2 resProgress [tInt 1, tInt 3, tInt 1, tInt 0]]"
  let ?st = "projr (the (run exampleEnv (newState exampleEnv True) ?evs))"
  have r: "run exampleEnv (newState exampleEnv True) ?evs = Some (Inr ?st)"
    by (simp add: eval_defs)
  have "reachable ?st"
    by (rule run_reachable [OF r reachable.init])
  from this rollup_reachable [OF this, of actBuilds] show ?thesis
    by (simp add: eval_defs liveUnits_def map_filter_simps)
qed

text \<open>
  C1 (as stated) fails on the term for expected: after a unit of kind Builds has been
  closed with done = 5 and while a second one is open with done = 1 and expected = 3,
  the function returns expected = 8, the closed unit's 5 included, where the reference
  record of the claim has 3.
\<close>

theorem rollup_counterexample:
  "case run exampleEnv (newState exampleEnv True)
          [StartActivity 1 0 actBuilds [] [] 0,
           Result 1 resProgress [tInt 5, tInt 5, tInt 0, tInt 0],
           StopActivity 1,
           StartActivity 2 0 actBuilds [] [] 0,
           Result 2 resProgress [tInt 1, tInt 3, tInt 1, tInt 0]] of
     Some (Inr st) \<Rightarrow>
       getActivityStats st (activitiesByType st actBuilds) =
         Inr \<lparr> ActivityStats.done = 6, ActivityStats.expected = 8,
               ActivityStats.running = 1, ActivityStats.failed = 0, left = 2 \<rparr> \<and>
       rollup_spec st actBuilds =
         \<lparr> ActivityStats.done = 6, ActivityStats.expected = 3,
           ActivityStats.running = 1, ActivityStats.failed = 0, left = 2 \<rparr> \<and>
       getActivityStats st (activitiesByType st actBuilds) \<noteq> Inr (rollup_spec st actBuilds)
   | _ \<Rightarrow> False"
  by (simp add: eval_defs rollup_spec_def liveUnits_def map_filter_simps)

subsection \<open>The directly set expected\<close>

lemma expectedInvI:
  assumes "\<And>ni. ni \<in> set (activities st) \<Longrightarrow> ignored (snd ni) \<Longrightarrow> expectedByType (snd ni) = []"
    and "\<And>ni. ni \<in> set (activities st) \<Longrightarrow> distinct (map fst (expectedByType (snd ni)))"
    and "\<And>k. ActivitiesByType.expected (activitiesByType st k) = expectedSum st k"
  shows "expectedInv st"
  unfolding expectedInv_def using assms by blast

lemma expInv_ignored:
  "expectedInv st \<Longrightarrow> ni \<in> set (activities st) \<Longrightarrow> ignored (snd ni) \<Longrightarrow> expectedByType (snd ni) = []"
  unfolding expectedInv_def by blast

lemma expInv_distinct:
  "expectedInv st \<Longrightarrow> ni \<in> set (activities st) \<Longrightarrow> distinct (map fst (expectedByType (snd ni)))"
  unfolding expectedInv_def by blast

lemma expInv_sum:
  "expectedInv st \<Longrightarrow> ActivitiesByType.expected (activitiesByType st k) = expectedSum st k"
  unfolding expectedInv_def by blast

lemma expectedInv_registry:
  assumes "registry st' = registry st"
  shows "expectedInv st' = expectedInv st"
proof -
  from assms have "activities st' = activities st" "activitiesByType st' = activitiesByType st"
    by (simp_all add: registry_def)
  then show ?thesis
    by (simp add: expectedInv_def expectedSum_def contributions_def)
qed

lemma lookupExpected_Nil [simp]: "lookupExpected [] k = 0"
  by (simp add: lookupExpected_def)

lemma map_of_setExpected_other:
  assumes "k' \<noteq> k"
  shows "map_of (setExpected k v m) k' = map_of m k'"
proof (cases "map_of m k")
  case None
  with assms show ?thesis by (simp add: setExpected_def map_add_def split: option.splits)
next
  case (Some a)
  have "map_of (map (\<lambda>kv. if fst kv = k then (k, v) else kv) m) k' = map_of m k'"
    using assms by (induction m) auto
  with Some show ?thesis by (simp add: setExpected_def)
qed

lemma lookupExpected_setExpected_other:
  "k' \<noteq> k \<Longrightarrow> lookupExpected (setExpected k v m) k' = lookupExpected m k'"
  by (simp add: lookupExpected_def map_of_setExpected_other)

lemma keys_setExpected:
  "map fst (setExpected k v m) = (if k \<in> fst ` set m then map fst m else map fst m @ [k])"
proof (cases "map_of m k")
  case None
  then have "k \<notin> fst ` set m" by (simp add: map_of_eq_None_iff)
  with None show ?thesis by (simp add: setExpected_def)
next
  case (Some a)
  then have "k \<in> fst ` set m" by (metis map_of_eq_None_iff option.distinct(1))
  moreover have "map fst (map (\<lambda>kv. if fst kv = k then (k, v) else kv) m) = map fst m"
    by (induction m) auto
  ultimately show ?thesis using Some by (simp add: setExpected_def)
qed

lemma distinct_setExpected:
  "distinct (map fst m) \<Longrightarrow> distinct (map fst (setExpected k v m))"
  by (simp add: keys_setExpected)

lemma distinct_fst_Cons:
  assumes "distinct (map fst (x # xs))" and "ni \<in> set xs"
  shows "fst ni \<noteq> fst x"
proof -
  from assms(1) have "fst x \<notin> fst ` set xs" by simp
  moreover from assms(2) have "fst ni \<in> fst ` set xs" by (rule imageI)
  ultimately show ?thesis by metis
qed

text \<open>Sums over the list of nodes when one node is replaced or removed.\<close>

lemma sum_list_map_upd:
  fixes h :: "ActInfo \<Rightarrow> 64 word"
  assumes "distinct (map fst xs)" and "map_of xs n = Some i"
  shows "sum_list (map (\<lambda>mi. h (snd mi)) (map (\<lambda>mi. if fst mi = n then (n, i') else mi) xs))
           = sum_list (map (\<lambda>mi. h (snd mi)) xs) - h i + h i'"
  using assms
proof (induction xs)
  case Nil
  then show ?case by simp
next
  case (Cons x xs)
  show ?case
  proof (cases "fst x = n")
    case True
    with Cons.prems have "snd x = i" by (cases x) simp
    moreover have "\<forall>ni \<in> set xs. fst ni \<noteq> n"
      using distinct_fst_Cons [OF Cons.prems(1)] True by auto
    ultimately show ?thesis using True by (simp add: map_upd_absent)
  next
    case False
    with Cons.prems have "distinct (map fst xs)" "map_of xs n = Some i"
      by (cases x; simp)+
    from Cons.IH [OF this] False show ?thesis by simp
  qed
qed

lemma sum_list_map_filter_key:
  fixes h :: "ActInfo \<Rightarrow> 64 word"
  assumes "distinct (map fst xs)" and "map_of xs n = Some i"
  shows "sum_list (map (\<lambda>mi. h (snd mi)) (filter (\<lambda>mi. fst mi \<noteq> n) xs))
           = sum_list (map (\<lambda>mi. h (snd mi)) xs) - h i"
  using assms
proof (induction xs)
  case Nil
  then show ?case by simp
next
  case (Cons x xs)
  show ?case
  proof (cases "fst x = n")
    case True
    with Cons.prems have "snd x = i" by (cases x) simp
    moreover have "\<forall>ni \<in> set xs. fst ni \<noteq> n"
      using distinct_fst_Cons [OF Cons.prems(1)] True by auto
    then have "filter (\<lambda>mi. fst mi \<noteq> n) xs = xs" by (simp add: filter_id_conv)
    ultimately show ?thesis using True by simp
  next
    case False
    with Cons.prems have "distinct (map fst xs)" "map_of xs n = Some i"
      by (cases x; simp)+
    from Cons.IH [OF this] False show ?thesis by simp
  qed
qed

lemma retractExpected_expected:
  "distinct (map fst ebt) \<Longrightarrow>
   ActivitiesByType.expected (retractExpected ebt m k)
     = ActivitiesByType.expected (m k) - lookupExpected ebt k"
  unfolding retractExpected_def
proof (induction ebt arbitrary: m)
  case Nil
  then show ?case by simp
next
  case (Cons j ebt)
  from Cons.prems have d: "distinct (map fst ebt)" and nk: "fst j \<notin> fst ` set ebt" by auto
  show ?case
  proof (cases "fst j = k")
    case True
    with nk have "map_of ebt k = None" by (simp add: map_of_eq_None_iff)
    then have "lookupExpected ebt k = 0" by (simp add: lookupExpected_def)
    with True Cons.IH [OF d] show ?thesis
      by (cases j) (simp add: lookupExpected_def)
  next
    case False
    with Cons.IH [OF d] show ?thesis
      by (cases j) (simp add: lookupExpected_def)
  qed
qed

lemma expectedInv_newState: "expectedInv (newState env isTTY)"
  by (simp add: expectedInv_def expectedSum_def contributions_def newState_def initState_def resetHelp_def removeStatusLines_def lineLess_def
        newActivitiesByType_def)

lemma expectedInv_start:
  assumes wf: "wfState st" and inv: "expectedInv st" and e: "expectedByType i = []"
  shows "expectedInv (setNode (nextNode st) i (insertNode act ty i0 st))"
proof (rule expectedInvI)
  let ?st' = "setNode (nextNode st) i (insertNode act ty i0 st)"
  have lt: "\<forall>ni \<in> set (activities st). fst ni < nextNode st"
    using wf_nodes_lt [OF wf] by blast
  note c = start_components [OF lt]
  fix ni assume ni: "ni \<in> set (activities ?st')"
  then have cases: "ni \<in> set (activities st) \<or> ni = (nextNode st, i)"
    by (auto simp: c)
  from cases expInv_ignored [OF inv, of ni] e
  show "expectedByType (snd ni) = []" if "ignored (snd ni)"
    using that by auto
  from cases expInv_distinct [OF inv, of ni] e
  show "distinct (map fst (expectedByType (snd ni)))"
    by auto
next
  fix k
  have lt: "\<forall>ni \<in> set (activities st). fst ni < nextNode st"
    using wf_nodes_lt [OF wf] by blast
  note c = start_components [OF lt]
  show "ActivitiesByType.expected (activitiesByType (setNode (nextNode st) i (insertNode act ty i0 st)) k)
          = expectedSum (setNode (nextNode st) i (insertNode act ty i0 st)) k"
    using expInv_sum [OF inv, of k] e
    by (auto simp: c expectedSum_def contributions_def)
qed

lemma in_setNode_cases:
  "ni \<in> set (activities (setNode n i' st)) \<Longrightarrow> ni \<in> set (activities st) \<or> ni = (n, i')"
  by (auto simp: setNode_def split: if_splits)

lemma expectedInv_setNode_same:
  assumes wf: "wfState st" and inv: "expectedInv st" and i: "deref st n = Inr i"
    and e: "expectedByType i' = expectedByType i" and g: "ignored i' = ignored i"
  shows "expectedInv (setNode n i' st)"
proof (rule expectedInvI)
  from i have mi: "map_of (activities st) n = Some i"
    by (simp add: deref_def split: option.splits)
  then have old: "(n, i) \<in> set (activities st)" by (rule map_of_SomeD)
  fix ni assume "ni \<in> set (activities (setNode n i' st))"
  from in_setNode_cases [OF this] have cases: "ni \<in> set (activities st) \<or> ni = (n, i')" .
  from cases expInv_ignored [OF inv, of ni] expInv_ignored [OF inv old] e g
  show "expectedByType (snd ni) = []" if "ignored (snd ni)"
    using that by auto
  from cases expInv_distinct [OF inv, of ni] expInv_distinct [OF inv old] e
  show "distinct (map fst (expectedByType (snd ni)))"
    by auto
next
  fix k
  have "lookupExpected (expectedByType i') k = lookupExpected (expectedByType i) k"
    using e by simp
  from setNode_proj [OF wf i, of "\<lambda>x. lookupExpected (expectedByType x) k" i', OF this]
  have "contributions (setNode n i' st) k = contributions st k"
    by (simp add: contributions_def)
  with expInv_sum [OF inv, of k]
  show "ActivitiesByType.expected (activitiesByType (setNode n i' st) k) = expectedSum (setNode n i' st) k"
    by (simp add: expectedSum_def)
qed

lemma contributions_setNode:
  assumes wf: "wfState st" and i: "deref st n = Inr i"
  shows "sum_list (contributions (setNode n i' st) k)
           = sum_list (contributions st k) - lookupExpected (expectedByType i) k
               + lookupExpected (expectedByType i') k"
proof -
  from i have mi: "map_of (activities st) n = Some i"
    by (simp add: deref_def split: option.splits)
  from sum_list_map_upd [OF wf_nodes_distinct [OF wf] mi, of "\<lambda>x. lookupExpected (expectedByType x) k" i']
  show ?thesis by (simp add: contributions_def setNode_def)
qed

lemma expectedInv_setExpected:
  assumes wf: "wfState st" and inv: "expectedInv st" and i: "deref st n = Inr i"
    and g: "\<not> ignored i"
  shows "expectedInv (setNode n (i\<lparr>expectedByType := setExpected k v (expectedByType i)\<rparr>)
           (st\<lparr>activitiesByType := (activitiesByType st)
                (k := (activitiesByType st k)
                   \<lparr>ActivitiesByType.expected :=
                      ActivitiesByType.expected (activitiesByType st k)
                        - lookupExpected (expectedByType i) k + v\<rparr>)\<rparr>))"
    (is "expectedInv (setNode n ?i' ?st1)")
proof (rule expectedInvI)
  from i have mi: "map_of (activities st) n = Some i"
    by (simp add: deref_def split: option.splits)
  then have old: "(n, i) \<in> set (activities st)" by (rule map_of_SomeD)
  fix ni assume "ni \<in> set (activities (setNode n ?i' ?st1))"
  from in_setNode_cases [OF this] have cases: "ni \<in> set (activities st) \<or> ni = (n, ?i')"
    by simp
  from cases expInv_ignored [OF inv, of ni] g
  show "expectedByType (snd ni) = []" if "ignored (snd ni)"
    using that by auto
  from cases expInv_distinct [OF inv, of ni] distinct_setExpected [OF expInv_distinct [OF inv old], of k v]
  show "distinct (map fst (expectedByType (snd ni)))"
    by auto
next
  fix k'
  have wf1: "wfState ?st1"
    by (rule wfState_counters [OF wf]) simp
  have i1: "deref ?st1 n = Inr i"
    using i by (simp add: deref_def)
  have c1: "contributions ?st1 k' = contributions st k'"
    by (simp add: contributions_def)
  from contributions_setNode [OF wf1 i1, of ?i' k'] c1
  have s: "expectedSum (setNode n ?i' ?st1) k'
             = expectedSum st k' - lookupExpected (expectedByType i) k'
                 + lookupExpected (setExpected k v (expectedByType i)) k'"
    by (simp add: expectedSum_def)
  show "ActivitiesByType.expected (activitiesByType (setNode n ?i' ?st1) k')
          = expectedSum (setNode n ?i' ?st1) k'"
  proof (cases "k' = k")
    case True
    with s expInv_sum [OF inv, of k] show ?thesis
      by (simp add: lookupExpected_setExpected_same)
  next
    case False
    with s expInv_sum [OF inv, of k'] show ?thesis
      by (simp add: lookupExpected_setExpected_other)
  qed
qed

lemma expectedInv_result:
  assumes wf: "wfState st" and inv: "expectedInv st" and r: "result env st act rty flds = Inr st'"
  shows "expectedInv st'"
proof -
  from result_shape [OF r] obtain n i where
    n: "map_of (State.its st) act = Some n" and i: "deref st n = Inr i" and
    c: "registry st' = registry st
      \<or> (\<exists>i'. sameCounters i i' \<and> ignored i' = ignored i \<and>
               registry st' = registry (setNode n i' st))
      \<or> (\<exists>d e r f. \<not> ignored i \<and>
               registry st' = registry (setNode n
                 (i\<lparr>ActInfo.done := d, ActInfo.expected := e,
                    ActInfo.running := r, ActInfo.failed := f\<rparr>) st))
      \<or> (\<exists>k v. \<not> ignored i \<and>
               registry st' = registry (setNode n
                 (i\<lparr>expectedByType := setExpected k v (expectedByType i)\<rparr>)
                 (st\<lparr>activitiesByType := (activitiesByType st)
                      (k := (activitiesByType st k)
                         \<lparr>ActivitiesByType.expected :=
                            ActivitiesByType.expected (activitiesByType st k)
                              - lookupExpected (expectedByType i) k + v\<rparr>)\<rparr>)))"
    by blast
  from c show ?thesis
  proof (elim disjE exE conjE)
    assume e: "registry st' = registry st"
    from inv expectedInv_registry [OF e] show ?thesis by simp
  next
    fix i' assume s: "sameCounters i i'" and g: "ignored i' = ignored i"
      and e: "registry st' = registry (setNode n i' st)"
    from s have "expectedByType i' = expectedByType i" by (simp add: sameCounters_def)
    from expectedInv_setNode_same [OF wf inv i this g] expectedInv_registry [OF e]
    show ?thesis by simp
  next
    fix d e r f
    assume e: "registry st' = registry (setNode n
                 (i\<lparr>ActInfo.done := d, ActInfo.expected := e,
                    ActInfo.running := r, ActInfo.failed := f\<rparr>) st)"
    have "expectedInv (setNode n (i\<lparr>ActInfo.done := d, ActInfo.expected := e,
                    ActInfo.running := r, ActInfo.failed := f\<rparr>) st)"
      by (rule expectedInv_setNode_same [OF wf inv i]) simp_all
    with expectedInv_registry [OF e] show ?thesis by simp
  next
    fix k v
    assume g: "\<not> ignored i" and e: "registry st' = registry (setNode n
                 (i\<lparr>expectedByType := setExpected k v (expectedByType i)\<rparr>)
                 (st\<lparr>activitiesByType := (activitiesByType st)
                      (k := (activitiesByType st k)
                         \<lparr>ActivitiesByType.expected :=
                            ActivitiesByType.expected (activitiesByType st k)
                              - lookupExpected (expectedByType i) k + v\<rparr>)\<rparr>))"
    from expectedInv_setExpected [OF wf inv i g, of k v] expectedInv_registry [OF e]
    show ?thesis by simp
  qed
qed

lemma expectedInv_startActivity:
  assumes "wfState st" and "expectedInv st"
    and "startActivity env st act lvl ty str flds par = Some (Inr st')"
  shows "expectedInv st'"
proof -
  from startActivity_shape [OF assms(3)] obtain st1 i where
    s: "st1 = st \<or> st1 = log st"
      "sameCounters (newActInfo\<lparr>s := str, type := ty, parent := par\<rparr>) i"
      "st' = update (setNode (nextNode st1) i
               (insertNode act ty (newActInfo\<lparr>s := str, type := ty, parent := par\<rparr>) st1))"
    by blast
  have "registry st1 = registry st"
    using s(1) by auto
  then have 1: "wfState st1" "expectedInv st1"
    using assms(1,2) wfState_registry expectedInv_registry by blast+
  from s(2) have "expectedByType i = []"
    by (simp add: sameCounters_def newActInfo_def)
  from expectedInv_start [OF 1 this] have
    "expectedInv (setNode (nextNode st1) i
               (insertNode act ty (newActInfo\<lparr>s := str, type := ty, parent := par\<rparr>) st1))" .
  moreover have "registry st' = registry (setNode (nextNode st1) i
               (insertNode act ty (newActInfo\<lparr>s := str, type := ty, parent := par\<rparr>) st1))"
    unfolding s(3) by simp
  ultimately show ?thesis
    using expectedInv_registry by blast
qed

lemma stopActivity_expected:
  assumes "stopActivity st act = Inr st'" and "map_of (State.its st) act = Some n"
    and "deref st n = Inr i" and "distinct (map fst (expectedByType i))"
  shows "ActivitiesByType.expected (activitiesByType st' k) =
           (if ignored i then ActivitiesByType.expected (activitiesByType st k)
            else ActivitiesByType.expected (activitiesByType st k)
                   - lookupExpected (expectedByType i) k)"
  using assms
  by (auto simp: stopActivity_def Let_def eraseNode_def retractExpected_expected)

lemma expectedInv_stopActivity:
  assumes wf: "wfState st" and inv: "expectedInv st" and s: "stopActivity st act = Inr st'"
  shows "expectedInv st'"
proof (cases "map_of (State.its st) act")
  case None
  with s have "st' = update st" by (simp add: stopActivity_def)
  then have "registry st' = registry st" by simp
  from inv expectedInv_registry [OF this] show ?thesis by simp
next
  case (Some n)
  from stopActivity_shape [OF s Some] obtain i where i: "deref st n = Inr i"
    and acts: "activities st' = filter (\<lambda>mi. fst mi \<noteq> n) (activities st)"
    by blast
  from i have mi: "map_of (activities st) n = Some i"
    by (simp add: deref_def split: option.splits)
  then have old: "(n, i) \<in> set (activities st)" by (rule map_of_SomeD)
  from expInv_distinct [OF inv old] have d: "distinct (map fst (expectedByType i))" by simp
  show ?thesis
  proof (rule expectedInvI)
    fix ni assume "ni \<in> set (activities st')"
    then have ni: "ni \<in> set (activities st)" by (simp add: acts)
    from expInv_ignored [OF inv ni]
    show "expectedByType (snd ni) = []" if "ignored (snd ni)" using that by simp
    from expInv_distinct [OF inv ni]
    show "distinct (map fst (expectedByType (snd ni)))" .
  next
    fix k
    from sum_list_map_filter_key [OF wf_nodes_distinct [OF wf] mi,
        of "\<lambda>x. lookupExpected (expectedByType x) k"]
    have "expectedSum st' k = expectedSum st k - lookupExpected (expectedByType i) k"
      by (simp add: expectedSum_def contributions_def acts)
    moreover have "ignored i \<Longrightarrow> lookupExpected (expectedByType i) k = 0"
      using expInv_ignored [OF inv old] by simp
    ultimately show "ActivitiesByType.expected (activitiesByType st' k) = expectedSum st' k"
      using stopActivity_expected [OF s Some i d, of k] expInv_sum [OF inv, of k]
      by (cases "ignored i") simp_all
  qed
qed

lemma reachable_expectedInv: "reachable st \<Longrightarrow> expectedInv st"
proof (induction rule: reachable.induct)
  case (init env isTTY)
  show ?case by (rule expectedInv_newState)
next
  case (step state env ev state')
  from step.hyps(1) have wf: "wfState state" by (rule reachable_wfState)
  show ?case
  proof (cases ev)
    case (StartActivity act lvl ty str flds par)
    with step.hyps(2) have "startActivity env state act lvl ty str flds par = Some (Inr state')"
      by simp
    from expectedInv_startActivity [OF wf step.IH this] show ?thesis .
  next
    case (StopActivity act)
    with step.hyps(2) have "stopActivity state act = Inr state'" by simp
    from expectedInv_stopActivity [OF wf step.IH this] show ?thesis .
  next
    case (Result act rty flds)
    with step.hyps(2) have "result env state act rty flds = Inr state'" by simp
    from expectedInv_result [OF wf step.IH this] show ?thesis .
  next
    case Draw
    with step.hyps(2) have "state' = draw state" by simp
    then have "registry state' = registry state" by simp
    from step.IH expectedInv_registry [OF this] show ?thesis by simp
  qed
qed

text \<open>A sum of 64-bit words that does not overflow.\<close>

lemma unat_sum_list:
  fixes ws :: "64 word list"
  assumes "sum_list (map unat ws) < 2 ^ 64"
  shows "unat (sum_list ws) = sum_list (map unat ws)"
  using assms
proof (induction ws)
  case Nil
  then show ?case by simp
next
  case (Cons w ws)
  from Cons.prems have "sum_list (map unat ws) < 2 ^ 64" by simp
  from Cons.IH [OF this] Cons.prems show ?case
    by (simp add: unat_word_ariths)
qed

lemma member_le_sum_list_word:
  fixes ws :: "64 word list"
  assumes "sum_list (map unat ws) < 2 ^ 64" and "w \<in> set ws"
  shows "w \<le> sum_list ws"
proof -
  from assms(2) have "unat w \<le> sum_list (map unat ws)"
    by (simp add: member_le_sum_list)
  with unat_sum_list [OF assms(1)] show ?thesis
    by (simp add: word_le_nat_alt)
qed

text \<open>
  C10 (as amended).  In every reachable state and for every kind \<open>k\<close>, the directly set
  \<open>expected\<close> of \<open>k\<close> is the sum of the open units' contributions to \<open>k\<close> in 64-bit
  unsigned arithmetic, that is, modulo \<open>2\<^sup>6\<^sup>4\<close>.  Where the contributions add up to
  less than \<open>2\<^sup>6\<^sup>4\<close>, the field is that sum as a natural number and no unit's
  contribution is larger than the field, so neither the subtraction in set-expected nor
  the ones in \<^verbatim>\<open>stopActivity\<close> go below zero.
\<close>

theorem expected_is_sum_of_contributions:
  assumes "reachable st"
  shows "ActivitiesByType.expected (activitiesByType st k) = sum_list (contributions st k)
     \<and> (sum_list (map unat (contributions st k)) < 2 ^ 64 \<longrightarrow>
          unat (ActivitiesByType.expected (activitiesByType st k))
            = sum_list (map unat (contributions st k)) \<and>
          (\<forall>ni \<in> set (activities st).
             lookupExpected (expectedByType (snd ni)) k
               \<le> ActivitiesByType.expected (activitiesByType st k)))"
proof -
  from assms have inv: "expectedInv st" by (rule reachable_expectedInv)
  from expInv_sum [OF inv, of k]
  have e: "ActivitiesByType.expected (activitiesByType st k) = sum_list (contributions st k)"
    by (simp add: expectedSum_def)
  moreover have "unat (ActivitiesByType.expected (activitiesByType st k))
            = sum_list (map unat (contributions st k))"
    if "sum_list (map unat (contributions st k)) < 2 ^ 64"
    using unat_sum_list [OF that] e by simp
  moreover have "lookupExpected (expectedByType (snd ni)) k
               \<le> ActivitiesByType.expected (activitiesByType st k)"
    if "sum_list (map unat (contributions st k)) < 2 ^ 64" and "ni \<in> set (activities st)" for ni
  proof -
    from that(2) have "lookupExpected (expectedByType (snd ni)) k \<in> set (contributions st k)"
      by (simp add: contributions_def)
    from member_le_sum_list_word [OF that(1) this] e show ?thesis by simp
  qed
  ultimately show ?thesis by blast
qed

theorem expected_is_sum_of_contributions_witness:
  "case run exampleEnv (newState exampleEnv True)
          [StartActivity 1 0 actBuilds [] [] 0,
           StartActivity 2 0 actBuilds [] [] 0,
           Result 1 resSetExpected [tInt 105, tInt 5],
           Result 2 resSetExpected [tInt 105, tInt 2]] of
     Some (Inr st) \<Rightarrow>
       reachable st \<and>
       contributions st actBuild = [5, 2] \<and>
       ActivitiesByType.expected (activitiesByType st actBuild) = 7 \<and>
       (\<forall>ni \<in> set (activities st). lookupExpected (expectedByType (snd ni)) actBuild \<le> 7)
   | _ \<Rightarrow> False"
proof -
  let ?evs = "[StartActivity 1 0 actBuilds [] [] 0,
           StartActivity 2 0 actBuilds [] [] 0,
           Result 1 resSetExpected [tInt 105, tInt 5],
           Result 2 resSetExpected [tInt 105, tInt 2]]"
  let ?st = "projr (the (run exampleEnv (newState exampleEnv True) ?evs))"
  have r: "run exampleEnv (newState exampleEnv True) ?evs = Some (Inr ?st)"
    by (simp add: eval_defs)
  have "reachable ?st"
    by (rule run_reachable [OF r reachable.init])
  from this expected_is_sum_of_contributions [OF this, of actBuild] show ?thesis
    by (simp add: eval_defs contributions_def)
qed

text \<open>
  C10 (as stated) fails where the contributions overflow: two open units that each set
  \<open>2\<^sup>6\<^sup>3\<close> as expected for kind Build leave the field at \<open>0\<close>, which is not the sum
  \<open>2\<^sup>6\<^sup>4\<close> of the two contributions and is smaller than either of them; closing the
  first unit then subtracts \<open>2\<^sup>6\<^sup>3\<close> from \<open>0\<close>, and the field wraps to \<open>2\<^sup>6\<^sup>3\<close>.
\<close>

theorem expected_is_sum_of_contributions_counterexample:
  "case run exampleEnv (newState exampleEnv True)
          [StartActivity 1 0 actBuilds [] [] 0,
           StartActivity 2 0 actBuilds [] [] 0,
           Result 1 resSetExpected [tInt 105, tInt 9223372036854775808],
           Result 2 resSetExpected [tInt 105, tInt 9223372036854775808]] of
     Some (Inr st) \<Rightarrow>
       contributions st actBuild = [9223372036854775808, 9223372036854775808] \<and>
       ActivitiesByType.expected (activitiesByType st actBuild) = 0 \<and>
       int (sum_list (map unat (contributions st actBuild))) = 18446744073709551616 \<and>
       \<not> (9223372036854775808 \<le> ActivitiesByType.expected (activitiesByType st actBuild)) \<and>
       (case stopActivity st 1 of
          Inr st' \<Rightarrow>
            ActivitiesByType.expected (activitiesByType st' actBuild) = 9223372036854775808
        | Inl _ \<Rightarrow> False)
   | _ \<Rightarrow> False"
  by (simp add: eval_defs contributions_def)

subsection \<open>The two indices under unique ids\<close>

lemma indexInvI:
  assumes "\<And>an. an \<in> set (State.its st) \<Longrightarrow>
        \<exists>t. (snd an, t) \<in> set (kinds st) \<and>
            an \<in> set (ActivitiesByType.its (activitiesByType st t))"
    and "\<And>t an. an \<in> set (ActivitiesByType.its (activitiesByType st t)) \<Longrightarrow>
        an \<in> set (State.its st)"
    and "\<And>nt. nt \<in> set (kinds st) \<Longrightarrow> \<exists>a. (a, fst nt) \<in> set (State.its st)"
  shows "indexInv st"
  unfolding indexInv_def using assms by blast

lemma idx_its:
  "indexInv st \<Longrightarrow> an \<in> set (State.its st) \<Longrightarrow>
   \<exists>t. (snd an, t) \<in> set (kinds st) \<and> an \<in> set (ActivitiesByType.its (activitiesByType st t))"
  unfolding indexInv_def by blast

lemma idx_bt:
  "indexInv st \<Longrightarrow> an \<in> set (ActivitiesByType.its (activitiesByType st t)) \<Longrightarrow>
   an \<in> set (State.its st)"
  unfolding indexInv_def by blast

lemma idx_node:
  "indexInv st \<Longrightarrow> nt \<in> set (kinds st) \<Longrightarrow> \<exists>a. (a, fst nt) \<in> set (State.its st)"
  unfolding indexInv_def by blast

lemma indexInv_same:
  assumes "kinds st' = kinds st" and "State.its st' = State.its st"
    and "\<And>t. ActivitiesByType.its (activitiesByType st' t)
              = ActivitiesByType.its (activitiesByType st t)"
  shows "indexInv st' = indexInv st"
  unfolding indexInv_def by (simp only: assms)

lemma indexInv_registry:
  assumes "registry st' = registry st"
  shows "indexInv st' = indexInv st"
proof -
  from assms have "activities st' = activities st" "State.its st' = State.its st"
    "activitiesByType st' = activitiesByType st"
    by (simp_all add: registry_def)
  then show ?thesis
    by (intro indexInv_same) (simp_all add: kinds_def)
qed

lemma kinds_setNode:
  assumes "wfState st" and "deref st n = Inr i" and "type i' = type i"
  shows "kinds (setNode n i' st) = kinds st"
proof -
  from assms(2) have mi: "map_of (activities st) n = Some i"
    by (simp add: deref_def split: option.splits)
  have "(fst (if fst mi = n then (n, i') else mi), type (snd (if fst mi = n then (n, i') else mi)))
          = (fst mi, type (snd mi))" if "mi \<in> set (activities st)" for mi
  proof (cases "fst mi = n")
    case True
    with that have "(n, snd mi) \<in> set (activities st)" by (metis prod.collapse)
    with wf_nodes_distinct [OF assms(1)] mi have "snd mi = i" by simp
    with True assms(3) show ?thesis by simp
  next
    case False
    then show ?thesis by simp
  qed
  then show ?thesis
    by (simp add: kinds_def setNode_def)
qed

lemma kinds_in:
  "(m, i) \<in> set (activities st) \<Longrightarrow> (m, type i) \<in> set (kinds st)"
  by (force simp: kinds_def)

lemma kinds_out:
  "(m, t) \<in> set (kinds st) \<Longrightarrow> \<exists>i. (m, i) \<in> set (activities st) \<and> type i = t"
  by (auto simp: kinds_def)

lemma kinds_unique:
  assumes "wfState st" and "(m, t) \<in> set (kinds st)" and "(m, t') \<in> set (kinds st)"
  shows "t = t'"
proof -
  from kinds_out [OF assms(2)] kinds_out [OF assms(3)] obtain i i' where
    "(m, i) \<in> set (activities st)" "type i = t" "(m, i') \<in> set (activities st)" "type i' = t'"
    by blast
  with wf_nodes_distinct [OF assms(1)] show ?thesis
    by (metis eq_key_imp_eq_value)
qed

lemma indexInv_newState: "indexInv (newState env isTTY)"
  by (simp add: indexInv_def kinds_def newState_def initState_def resetHelp_def removeStatusLines_def lineLess_def newActivitiesByType_def)

lemma indexInv_result:
  assumes wf: "wfState st" and inv: "indexInv st" and r: "result env st act rty flds = Inr st'"
  shows "indexInv st'"
proof -
  from result_shape [OF r] obtain n i where
    n: "map_of (State.its st) act = Some n" and i: "deref st n = Inr i" and
    c: "registry st' = registry st
      \<or> (\<exists>i'. sameCounters i i' \<and> ignored i' = ignored i \<and>
               registry st' = registry (setNode n i' st))
      \<or> (\<exists>d e r f. \<not> ignored i \<and>
               registry st' = registry (setNode n
                 (i\<lparr>ActInfo.done := d, ActInfo.expected := e,
                    ActInfo.running := r, ActInfo.failed := f\<rparr>) st))
      \<or> (\<exists>k v. \<not> ignored i \<and>
               registry st' = registry (setNode n
                 (i\<lparr>expectedByType := setExpected k v (expectedByType i)\<rparr>)
                 (st\<lparr>activitiesByType := (activitiesByType st)
                      (k := (activitiesByType st k)
                         \<lparr>ActivitiesByType.expected :=
                            ActivitiesByType.expected (activitiesByType st k)
                              - lookupExpected (expectedByType i) k + v\<rparr>)\<rparr>)))"
    by blast
  have same: "indexInv (setNode n i' st) = indexInv st" if "type i' = type i" for i'
    by (rule indexInv_same) (simp_all add: kinds_setNode [OF wf i that])
  from c show ?thesis
  proof (elim disjE exE conjE)
    assume e: "registry st' = registry st"
    from inv indexInv_registry [OF e] show ?thesis by simp
  next
    fix i' assume s: "sameCounters i i'" and e: "registry st' = registry (setNode n i' st)"
    from s have "type i' = type i" by (simp add: sameCounters_def)
    from same [OF this] inv indexInv_registry [OF e] show ?thesis by simp
  next
    fix d e r f
    assume e: "registry st' = registry (setNode n
                 (i\<lparr>ActInfo.done := d, ActInfo.expected := e,
                    ActInfo.running := r, ActInfo.failed := f\<rparr>) st)"
    have "indexInv (setNode n (i\<lparr>ActInfo.done := d, ActInfo.expected := e,
                    ActInfo.running := r, ActInfo.failed := f\<rparr>) st) = indexInv st"
      by (rule same) simp
    with inv indexInv_registry [OF e] show ?thesis by simp
  next
    fix k v
    let ?st1 = "st\<lparr>activitiesByType := (activitiesByType st)
                      (k := (activitiesByType st k)
                         \<lparr>ActivitiesByType.expected :=
                            ActivitiesByType.expected (activitiesByType st k)
                              - lookupExpected (expectedByType i) k + v\<rparr>)\<rparr>"
    let ?i' = "i\<lparr>expectedByType := setExpected k v (expectedByType i)\<rparr>"
    assume e: "registry st' = registry (setNode n ?i' ?st1)"
    have "kinds (setNode n ?i' ?st1) = kinds (setNode n ?i' st)"
      by (simp add: kinds_def setNode_def)
    also have "\<dots> = kinds st"
      by (rule kinds_setNode [OF wf i]) simp
    finally have "indexInv (setNode n ?i' ?st1) = indexInv st"
      by (intro indexInv_same) simp_all
    with inv indexInv_registry [OF e] show ?thesis by simp
  qed
qed

lemma indexInv_start:
  assumes wf: "wfState st" and inv: "indexInv st" and ty: "type i = ty"
    and fresh: "map_of (State.its st) act = None"
  shows "indexInv (setNode (nextNode st) i (insertNode act ty i0 st))"
proof -
  let ?n = "nextNode st"
  let ?st' = "setNode ?n i (insertNode act ty i0 st)"
  have lt: "\<forall>ni \<in> set (activities st). fst ni < ?n"
    using wf_nodes_lt [OF wf] by blast
  note c = start_components [OF lt]
  have k: "kinds ?st' = kinds st @ [(?n, ty)]"
    by (simp add: kinds_def c ty)
  have its: "set (State.its (insertNode act ty i0 st)) = insert (act, ?n) (set (State.its st))"
    by (simp add: c set_emplace_fresh [OF fresh])
  have "map_of (ActivitiesByType.its (activitiesByType st ty)) act = None"
  proof (rule ccontr)
    assume "map_of (ActivitiesByType.its (activitiesByType st ty)) act \<noteq> None"
    then obtain m where "map_of (ActivitiesByType.its (activitiesByType st ty)) act = Some m"
      by blast
    then have "(act, m) \<in> set (ActivitiesByType.its (activitiesByType st ty))"
      by (rule map_of_SomeD)
    from idx_bt [OF inv this] wf_its_distinct [OF wf] have "map_of (State.its st) act = Some m"
      by simp
    with fresh show False by simp
  qed
  then have bt_ty: "set (ActivitiesByType.its (activitiesByType (insertNode act ty i0 st) ty))
                 = insert (act, ?n) (set (ActivitiesByType.its (activitiesByType st ty)))"
    by (simp add: c set_emplace_fresh)
  have bt_other: "ActivitiesByType.its (activitiesByType (insertNode act ty i0 st) t)
                    = ActivitiesByType.its (activitiesByType st t)" if "t \<noteq> ty" for t
    using that by (simp add: c)
  show ?thesis
  proof (rule indexInvI)
    fix an assume "an \<in> set (State.its ?st')"
    then have "an = (act, ?n) \<or> an \<in> set (State.its st)" by (simp add: its)
    then show "\<exists>t. (snd an, t) \<in> set (kinds ?st') \<and>
                  an \<in> set (ActivitiesByType.its (activitiesByType ?st' t))"
    proof
      assume "an = (act, ?n)"
      then have "(snd an, ty) \<in> set (kinds ?st') \<and>
                  an \<in> set (ActivitiesByType.its (activitiesByType ?st' ty))"
        by (simp add: k bt_ty)
      then show ?thesis by blast
    next
      assume "an \<in> set (State.its st)"
      from idx_its [OF inv this] obtain t where
        t: "(snd an, t) \<in> set (kinds st)" "an \<in> set (ActivitiesByType.its (activitiesByType st t))"
        by blast
      have "an \<in> set (ActivitiesByType.its (activitiesByType ?st' t))"
        using t(2) bt_ty bt_other [of t] by (cases "t = ty") auto
      with t(1) have "(snd an, t) \<in> set (kinds ?st') \<and>
                  an \<in> set (ActivitiesByType.its (activitiesByType ?st' t))"
        by (simp add: k)
      then show ?thesis by blast
    qed
  next
    fix t an assume a: "an \<in> set (ActivitiesByType.its (activitiesByType ?st' t))"
    have "an = (act, ?n) \<or> an \<in> set (ActivitiesByType.its (activitiesByType st t))"
      using a bt_ty bt_other [of t] by (cases "t = ty") auto
    then show "an \<in> set (State.its ?st')"
      using idx_bt [OF inv, of an t] by (auto simp: its)
  next
    fix nt assume "nt \<in> set (kinds ?st')"
    then have "nt = (?n, ty) \<or> nt \<in> set (kinds st)" by (auto simp: k)
    then show "\<exists>a. (a, fst nt) \<in> set (State.its ?st')"
    proof
      assume "nt = (?n, ty)"
      then have "(act, fst nt) \<in> set (State.its ?st')" by (simp add: its)
      then show ?thesis by blast
    next
      assume "nt \<in> set (kinds st)"
      from idx_node [OF inv this] obtain a where "(a, fst nt) \<in> set (State.its st)" by blast
      then have "(a, fst nt) \<in> set (State.its ?st')" by (simp add: its)
      then show ?thesis by blast
    qed
  qed
qed

lemma indexInv_startActivity:
  assumes "wfState st" and "indexInv st" and "map_of (State.its st) act = None"
    and "startActivity env st act lvl ty str flds par = Some (Inr st')"
  shows "indexInv st'"
proof -
  from startActivity_shape [OF assms(4)] obtain st1 i where
    s: "st1 = st \<or> st1 = log st"
      "sameCounters (newActInfo\<lparr>s := str, type := ty, parent := par\<rparr>) i"
      "st' = update (setNode (nextNode st1) i
               (insertNode act ty (newActInfo\<lparr>s := str, type := ty, parent := par\<rparr>) st1))"
    by blast
  have reg: "registry st1 = registry st"
    using s(1) by auto
  then have 1: "wfState st1" "indexInv st1"
    using assms(1,2) wfState_registry indexInv_registry by blast+
  from reg assms(3) have 2: "map_of (State.its st1) act = None"
    by (simp add: registry_def)
  from s(2) have "type i = ty"
    by (simp add: sameCounters_def)
  from indexInv_start [OF 1 this 2] have
    "indexInv (setNode (nextNode st1) i
               (insertNode act ty (newActInfo\<lparr>s := str, type := ty, parent := par\<rparr>) st1))" .
  moreover have "registry st' = registry (setNode (nextNode st1) i
               (insertNode act ty (newActInfo\<lparr>s := str, type := ty, parent := par\<rparr>) st1))"
    unfolding s(3) by simp
  ultimately show ?thesis
    using indexInv_registry by blast
qed

lemma indexInv_stopActivity:
  assumes wf: "wfState st" and inv: "indexInv st" and s: "stopActivity st act = Inr st'"
  shows "indexInv st'"
proof (cases "map_of (State.its st) act")
  case None
  with s have "st' = update st" by (simp add: stopActivity_def)
  then have "registry st' = registry st" by simp
  from inv indexInv_registry [OF this] show ?thesis by simp
next
  case (Some n)
  from stopActivity_shape [OF s Some] obtain i where i: "deref st n = Inr i"
    and acts: "activities st' = filter (\<lambda>mi. fst mi \<noteq> n) (activities st)"
    and its: "State.its st' = erase act (State.its st)"
    and bt: "\<And>t. ActivitiesByType.its (activitiesByType st' t) =
                  (if t = type i then erase act (ActivitiesByType.its (activitiesByType st t))
                   else ActivitiesByType.its (activitiesByType st t))"
    by blast
  from i have mi: "map_of (activities st) n = Some i"
    by (simp add: deref_def split: option.splits)
  then have node: "(n, type i) \<in> set (kinds st)"
    using kinds_in map_of_SomeD by fast
  from Some have an: "(act, n) \<in> set (State.its st)"
    by (rule map_of_SomeD)
  have k: "set (kinds st') = {nt \<in> set (kinds st). fst nt \<noteq> n}"
    by (auto simp: kinds_def acts)
  show ?thesis
  proof (rule indexInvI)
    fix x assume "x \<in> set (State.its st')"
    then have x: "x \<in> set (State.its st)" "fst x \<noteq> act"
      by (simp_all add: its set_erase)
    from idx_its [OF inv x(1)] obtain t where
      t: "(snd x, t) \<in> set (kinds st)" "x \<in> set (ActivitiesByType.its (activitiesByType st t))"
      by blast
    have "snd x \<noteq> n"
      using wf_its_inj [OF wf x(1) an] x(2) by auto
    with t(1) have "(snd x, t) \<in> set (kinds st')" by (simp add: k)
    moreover from t(2) x(2) have "x \<in> set (ActivitiesByType.its (activitiesByType st' t))"
      by (auto simp: bt set_erase)
    ultimately show "\<exists>t. (snd x, t) \<in> set (kinds st') \<and>
                  x \<in> set (ActivitiesByType.its (activitiesByType st' t))"
      by blast
  next
    fix t x assume "x \<in> set (ActivitiesByType.its (activitiesByType st' t))"
    then have x: "x \<in> set (ActivitiesByType.its (activitiesByType st t))"
      and na: "t = type i \<longrightarrow> fst x \<noteq> act"
      by (auto simp: bt set_erase split: if_splits)
    from idx_bt [OF inv x] have xi: "x \<in> set (State.its st)" .
    have "fst x \<noteq> act"
    proof
      assume e: "fst x = act"
      with xi an wf_its_distinct [OF wf] have "x = (act, n)"
        by (metis eq_key_imp_eq_value prod.collapse)
      with wf_bt_valid [OF wf x] obtain j where "(n, j) \<in> set (activities st)" "type j = t"
        by auto
      with wf_nodes_distinct [OF wf] mi have "t = type i" by simp
      with na e show False by simp
    qed
    with xi show "x \<in> set (State.its st')" by (simp add: its set_erase)
  next
    fix nt assume "nt \<in> set (kinds st')"
    then have nt: "nt \<in> set (kinds st)" "fst nt \<noteq> n" by (simp_all add: k)
    from idx_node [OF inv nt(1)] obtain a where a: "(a, fst nt) \<in> set (State.its st)" by blast
    have "a \<noteq> act"
    proof
      assume "a = act"
      with a an wf_its_distinct [OF wf] have "fst nt = n"
        by (metis eq_key_imp_eq_value)
      with nt(2) show False by simp
    qed
    with a have "(a, fst nt) \<in> set (State.its st')" by (simp add: its set_erase)
    then show "\<exists>a. (a, fst nt) \<in> set (State.its st')" by blast
  qed
qed

lemma reachableUnique_reachable: "reachableUnique st \<Longrightarrow> reachable st"
  by (induction rule: reachableUnique.induct) (auto intro: reachable.intros)

lemma reachableUnique_indexInv: "reachableUnique st \<Longrightarrow> indexInv st"
proof (induction rule: reachableUnique.induct)
  case (initU env isTTY)
  show ?case by (rule indexInv_newState)
next
  case (stepU state ev env state')
  from stepU.hyps(1) have wf: "wfState state"
    using reachableUnique_reachable reachable_wfState by blast
  show ?case
  proof (cases ev)
    case (StartActivity act lvl ty str flds par)
    with stepU.hyps(2,3) have "map_of (State.its state) act = None"
      "startActivity env state act lvl ty str flds par = Some (Inr state')"
      by (simp_all add: freshId_def)
    from indexInv_startActivity [OF wf stepU.IH this] show ?thesis .
  next
    case (StopActivity act)
    with stepU.hyps(3) have "stopActivity state act = Inr state'" by simp
    from indexInv_stopActivity [OF wf stepU.IH this] show ?thesis .
  next
    case (Result act rty flds)
    with stepU.hyps(3) have "result env state act rty flds = Inr state'" by simp
    from indexInv_result [OF wf stepU.IH this] show ?thesis .
  next
    case Draw
    with stepU.hyps(3) have "state' = draw state" by simp
    then have "registry state' = registry state" by simp
    from stepU.IH indexInv_registry [OF this] show ?thesis by simp
  qed
qed

lemma run_reachableUnique:
  "run env st evs = Some (Inr st') \<Longrightarrow> freshRun env st evs \<Longrightarrow> reachableUnique st \<Longrightarrow>
   reachableUnique st'"
proof (induction evs arbitrary: st)
  case Nil
  then show ?case by simp
next
  case (Cons ev evs)
  from Cons.prems(1) obtain st1 where 1: "apply_event env st ev = Some (Inr st1)"
    and 2: "run env st1 evs = Some (Inr st')"
    by (auto split: option.splits sum.splits)
  from Cons.prems(2) 1 have f: "freshId st ev" "freshRun env st1 evs" by simp_all
  from Cons.prems(3) f(1) 1 have "reachableUnique st1" by (rule reachableUnique.stepU)
  with 2 f(2) show ?case by (rule Cons.IH)
qed

lemma wf_its_deref:
  assumes "wfState st" and "map_of (State.its st) act = Some n"
  shows "\<exists>i. deref st n = Inr i"
proof -
  from assms(2) have "(act, n) \<in> set (State.its st)" by (rule map_of_SomeD)
  from wf_its_valid [OF assms(1) this] have "n \<in> fst ` set (activities st)" by simp
  then have "map_of (activities st) n \<noteq> None" by (simp add: map_of_eq_None_iff)
  then show ?thesis by (auto simp: deref_def)
qed

lemma stopActivity_returns:
  assumes "wfState st"
  shows "\<exists>st'. stopActivity st act = Inr st'"
proof (cases "map_of (State.its st) act")
  case None
  then show ?thesis by (simp add: stopActivity_def)
next
  case (Some n)
  from wf_its_deref [OF assms Some] obtain i where "deref st n = Inr i" by blast
  with Some show ?thesis by (simp add: stopActivity_def Let_def)
qed

lemma unit_in_both_indices:
  assumes wf: "wfState st" and inv: "indexInv st" and ni: "ni \<in> set (activities st)"
  shows "\<exists>a. (\<forall>a'. (a', fst ni) \<in> set (State.its st) \<longleftrightarrow> a' = a) \<and>
             (\<forall>t a'. (a', fst ni) \<in> set (ActivitiesByType.its (activitiesByType st t))
                 \<longleftrightarrow> t = type (snd ni) \<and> a' = a)"
proof -
  obtain n i where [simp]: "ni = (n, i)" by (cases ni)
  from ni have node: "(n, i) \<in> set (activities st)" by simp
  then have k: "(n, type i) \<in> set (kinds st)" by (rule kinds_in)
  from idx_node [OF inv k] obtain a where a: "(a, n) \<in> set (State.its st)" by auto
  have u: "a' = a" if "(a', n) \<in> set (State.its st)" for a'
    using wf_its_inj [OF wf that a] by simp
  from idx_its [OF inv a] obtain t0 where
    t0: "(n, t0) \<in> set (kinds st)" "(a, n) \<in> set (ActivitiesByType.its (activitiesByType st t0))"
    by auto
  from kinds_unique [OF wf t0(1) k] t0(2)
  have here: "(a, n) \<in> set (ActivitiesByType.its (activitiesByType st (type i)))" by simp
  have only: "t = type i \<and> a' = a"
    if "(a', n) \<in> set (ActivitiesByType.its (activitiesByType st t))" for t a'
  proof -
    from wf_bt_valid [OF wf that] obtain j where "(n, j) \<in> set (activities st)" "type j = t"
      by auto
    then have "(n, t) \<in> set (kinds st)" using kinds_in by blast
    from kinds_unique [OF wf this k] have "t = type i" .
    moreover from idx_bt [OF inv that] have "a' = a" by (rule u)
    ultimately show ?thesis by simp
  qed
  have "(\<forall>a'. (a', n) \<in> set (State.its st) \<longleftrightarrow> a' = a) \<and>
        (\<forall>t a'. (a', n) \<in> set (ActivitiesByType.its (activitiesByType st t))
                 \<longleftrightarrow> t = type i \<and> a' = a)"
    using a u here only by blast
  then show ?thesis by auto
qed

lemma stopped_unit_in_no_index:
  assumes wf: "wfState st" and inv: "indexInv st" and n: "map_of (State.its st) act = Some n"
  shows "\<exists>st'. stopActivity st act = Inr st' \<and>
           n \<notin> fst ` set (activities st') \<and>
           act \<notin> fst ` set (State.its st') \<and> n \<notin> snd ` set (State.its st') \<and>
           (\<forall>t. act \<notin> fst ` set (ActivitiesByType.its (activitiesByType st' t)) \<and>
                n \<notin> snd ` set (ActivitiesByType.its (activitiesByType st' t)))"
proof -
  from stopActivity_returns [OF wf] obtain st' where s: "stopActivity st act = Inr st'" by blast
  from wfState_stopActivity [OF wf s] have wf': "wfState st'" .
  from indexInv_stopActivity [OF wf inv s] have inv': "indexInv st'" .
  from stopActivity_shape [OF s n] have
    acts: "activities st' = filter (\<lambda>mi. fst mi \<noteq> n) (activities st)"
    and its: "State.its st' = erase act (State.its st)"
    by blast+
  have 1: "n \<notin> fst ` set (activities st')"
    by (auto simp: acts)
  have 2: "act \<notin> fst ` set (State.its st')"
    by (auto simp: its set_erase)
  have 3: "n \<notin> snd ` set (State.its st')"
  proof
    assume "n \<in> snd ` set (State.its st')"
    then obtain x where "x \<in> set (State.its st')" "snd x = n" by auto
    with wf_its_valid [OF wf' this(1)] 1 show False by simp
  qed
  have 4: "act \<notin> fst ` set (ActivitiesByType.its (activitiesByType st' t))" for t
  proof
    assume "act \<in> fst ` set (ActivitiesByType.its (activitiesByType st' t))"
    then obtain x where x: "x \<in> set (ActivitiesByType.its (activitiesByType st' t))" "fst x = act"
      by auto
    from idx_bt [OF inv' x(1)] x(2) 2 show False by force
  qed
  have 5: "n \<notin> snd ` set (ActivitiesByType.its (activitiesByType st' t))" for t
  proof
    assume "n \<in> snd ` set (ActivitiesByType.its (activitiesByType st' t))"
    then obtain x where x: "x \<in> set (ActivitiesByType.its (activitiesByType st' t))" "snd x = n"
      by auto
    from wf_bt_valid [OF wf' x(1)] x(2) obtain j where "(n, j) \<in> set (activities st')" by auto
    with 1 show False by force
  qed
  from s 1 2 3 4 5 show ?thesis by blast
qed

lemma map_of_insort_key_fresh:
  "map_of m k = None \<Longrightarrow>
   map_of (insort_key fst (k, v) m) a = (if a = k then Some v else map_of m a)"
  by (induction m) (auto split: if_splits)

lemma map_of_emplace:
  "map_of (emplace k v m) a = (if a = k \<and> map_of m k = None then Some v else map_of m a)"
  by (cases "map_of m k") (auto simp: emplace_def map_of_insort_key_fresh)

lemma kinds_registry:
  "registry st' = registry st \<Longrightarrow>
   kinds st' = kinds st \<and> State.its st' = State.its st \<and>
   (\<forall>t. ActivitiesByType.its (activitiesByType st' t) = ActivitiesByType.its (activitiesByType st t))"
  by (simp add: registry_def kinds_def)

lemma result_keeps_indices:
  assumes wf: "wfState st" and r: "result env st act rty flds = Inr st'"
  shows "kinds st' = kinds st \<and> State.its st' = State.its st \<and>
         (\<forall>t. ActivitiesByType.its (activitiesByType st' t)
                = ActivitiesByType.its (activitiesByType st t))"
proof -
  from result_shape [OF r] obtain n i where
    n: "map_of (State.its st) act = Some n" and i: "deref st n = Inr i" and
    c: "registry st' = registry st
      \<or> (\<exists>i'. sameCounters i i' \<and> ignored i' = ignored i \<and>
               registry st' = registry (setNode n i' st))
      \<or> (\<exists>d e r f. \<not> ignored i \<and>
               registry st' = registry (setNode n
                 (i\<lparr>ActInfo.done := d, ActInfo.expected := e,
                    ActInfo.running := r, ActInfo.failed := f\<rparr>) st))
      \<or> (\<exists>k v. \<not> ignored i \<and>
               registry st' = registry (setNode n
                 (i\<lparr>expectedByType := setExpected k v (expectedByType i)\<rparr>)
                 (st\<lparr>activitiesByType := (activitiesByType st)
                      (k := (activitiesByType st k)
                         \<lparr>ActivitiesByType.expected :=
                            ActivitiesByType.expected (activitiesByType st k)
                              - lookupExpected (expectedByType i) k + v\<rparr>)\<rparr>)))"
    by blast
  have same: "kinds (setNode n i' st) = kinds st" if "type i' = type i" for i'
    by (rule kinds_setNode [OF wf i that])
  from c show ?thesis
  proof (elim disjE exE conjE)
    assume e: "registry st' = registry st"
    from kinds_registry [OF e] show ?thesis .
  next
    fix i' assume s: "sameCounters i i'" and e: "registry st' = registry (setNode n i' st)"
    from s have "type i' = type i" by (simp add: sameCounters_def)
    from same [OF this] kinds_registry [OF e] show ?thesis by simp
  next
    fix d e r f
    assume e: "registry st' = registry (setNode n
                 (i\<lparr>ActInfo.done := d, ActInfo.expected := e,
                    ActInfo.running := r, ActInfo.failed := f\<rparr>) st)"
    have "kinds (setNode n (i\<lparr>ActInfo.done := d, ActInfo.expected := e,
                    ActInfo.running := r, ActInfo.failed := f\<rparr>) st) = kinds st"
      by (rule same) simp
    with kinds_registry [OF e] show ?thesis by simp
  next
    fix k v
    let ?i' = "i\<lparr>expectedByType := setExpected k v (expectedByType i)\<rparr>"
    let ?st1 = "st\<lparr>activitiesByType := (activitiesByType st)
                      (k := (activitiesByType st k)
                         \<lparr>ActivitiesByType.expected :=
                            ActivitiesByType.expected (activitiesByType st k)
                              - lookupExpected (expectedByType i) k + v\<rparr>)\<rparr>"
    assume e: "registry st' = registry (setNode n ?i' ?st1)"
    have "activities (setNode n ?i' ?st1) = activities (setNode n ?i' st)"
      by (simp add: setNode_def)
    then have "kinds (setNode n ?i' ?st1) = kinds (setNode n ?i' st)"
      by (simp add: kinds_def)
    also have "\<dots> = kinds st" by (rule same) simp
    finally have "kinds (setNode n ?i' ?st1) = kinds st" .
    with kinds_registry [OF e] show ?thesis by simp
  qed
qed

lemma start_registers:
  assumes wf: "wfState st" and inv: "indexInv st" and fresh: "map_of (State.its st) act = None"
    and s: "startActivity env st act lvl ty str flds par = Some (Inr st')"
  shows "\<exists>i. activities st' = activities st @ [(nextNode st, i)] \<and> type i = ty \<and>
           map_of (State.its st') act = Some (nextNode st) \<and>
           map_of (ActivitiesByType.its (activitiesByType st' ty)) act = Some (nextNode st) \<and>
           (\<forall>a. a \<noteq> act \<longrightarrow> map_of (State.its st') a = map_of (State.its st) a) \<and>
           (\<forall>t a. t \<noteq> ty \<or> a \<noteq> act \<longrightarrow>
              map_of (ActivitiesByType.its (activitiesByType st' t)) a
                = map_of (ActivitiesByType.its (activitiesByType st t)) a)"
proof -
  let ?i0 = "newActInfo\<lparr>s := str, type := ty, parent := par\<rparr>"
  from startActivity_shape [OF s] obtain st1 i where
    st1: "st1 = st \<or> st1 = log st" and sc: "sameCounters ?i0 i" and
    st': "st' = update (setNode (nextNode st1) i (insertNode act ty ?i0 st1))"
    by blast
  from st1 have e: "activities st1 = activities st" "State.its st1 = State.its st"
    "activitiesByType st1 = activitiesByType st" "nextNode st1 = nextNode st"
    by auto
  have lt: "\<forall>ni \<in> set (activities st1). fst ni < nextNode st1"
    using wf_nodes_lt [OF wf] e by auto
  note c = start_components [OF lt]
  have a: "activities st' = activities st @ [(nextNode st, i)]"
    using c(1) by (simp add: st' e)
  have t: "type i = ty" using sc by (simp add: sameCounters_def)
  have its: "State.its st' = emplace act (nextNode st) (State.its st)"
    using c(2) by (simp add: st' e)
  have bt: "ActivitiesByType.its (activitiesByType st' t) =
      (if t = ty then emplace act (nextNode st) (ActivitiesByType.its (activitiesByType st ty))
       else ActivitiesByType.its (activitiesByType st t))" for t
    using c(3) by (simp add: st' e)
  have fb: "map_of (ActivitiesByType.its (activitiesByType st ty)) act = None"
  proof (cases "map_of (ActivitiesByType.its (activitiesByType st ty)) act")
    case None then show ?thesis .
  next
    case (Some m)
    then have "(act, m) \<in> set (ActivitiesByType.its (activitiesByType st ty))"
      by (rule map_of_SomeD)
    from idx_bt [OF inv this] have "act \<in> fst ` set (State.its st)" by force
    with fresh show ?thesis by (simp add: map_of_eq_None_iff)
  qed
  show ?thesis
    apply (rule exI [of _ i])
    apply (intro conjI allI impI)
    subgoal by (rule a)
    subgoal by (rule t)
    subgoal by (simp add: its map_of_emplace fresh)
    subgoal by (simp add: bt map_of_emplace fb)
    subgoal by (simp add: its map_of_emplace)
    subgoal for t a by (auto simp: bt map_of_emplace)
    done
qed

lemma its_point_into_list:
  assumes wf: "wfState st"
  shows "\<forall>an \<in> set (State.its st). snd an \<in> fst ` set (activities st)"
  using wf unfolding wfState_def by blast

text \<open>
  C8.  Under the contract that a unit is started only under an id that is not open, in
  every state that a sequence of calls reaches: every node of the list of open units is
  in the flat index under exactly one id, and it is in the index of exactly one type,
  its own, under that same id; every entry of the flat index points to a node of the
  list.  A \<^verbatim>\<open>startActivity\<close> under an id that is not open, when it returns, has appended
  one node of the given type to the list and entered it under the id in the flat index
  and in the index of that type, every other entry of every index being as before.  A
  \<^verbatim>\<open>result\<close> that returns leaves the nodes, their types and all indices as they were.
  For every open id, \<^verbatim>\<open>stopActivity\<close> returns a state in which exactly that node and that
  entry are gone: neither the id nor the node is in the list, in the flat index or in
  the index of any type.  Each of these calls leads to a state of the same kind again.
\<close>

theorem open_units_indexed:
  assumes "reachableUnique st"
  shows "(\<forall>ni \<in> set (activities st). \<exists>a.
            (\<forall>a'. (a', fst ni) \<in> set (State.its st) \<longleftrightarrow> a' = a) \<and>
            (\<forall>t a'. (a', fst ni) \<in> set (ActivitiesByType.its (activitiesByType st t))
                \<longleftrightarrow> t = type (snd ni) \<and> a' = a))
       \<and> (\<forall>an \<in> set (State.its st). snd an \<in> fst ` set (activities st))
       \<and> (\<forall>env act lvl ty str flds par st'.
            map_of (State.its st) act = None \<and>
            startActivity env st act lvl ty str flds par = Some (Inr st') \<longrightarrow>
            reachableUnique st' \<and>
            (\<exists>i. activities st' = activities st @ [(nextNode st, i)] \<and> type i = ty \<and>
               map_of (State.its st') act = Some (nextNode st) \<and>
               map_of (ActivitiesByType.its (activitiesByType st' ty)) act = Some (nextNode st) \<and>
               (\<forall>a. a \<noteq> act \<longrightarrow> map_of (State.its st') a = map_of (State.its st) a) \<and>
               (\<forall>t a. t \<noteq> ty \<or> a \<noteq> act \<longrightarrow>
                  map_of (ActivitiesByType.its (activitiesByType st' t)) a
                    = map_of (ActivitiesByType.its (activitiesByType st t)) a)))
       \<and> (\<forall>env act rty flds st'. result env st act rty flds = Inr st' \<longrightarrow>
            reachableUnique st' \<and> kinds st' = kinds st \<and> State.its st' = State.its st \<and>
            (\<forall>t. ActivitiesByType.its (activitiesByType st' t)
                   = ActivitiesByType.its (activitiesByType st t)))
       \<and> (\<forall>act n. map_of (State.its st) act = Some n \<longrightarrow>
            (\<exists>st'. stopActivity st act = Inr st' \<and> reachableUnique st' \<and>
               activities st' = filter (\<lambda>mi. fst mi \<noteq> n) (activities st) \<and>
               State.its st' = erase act (State.its st) \<and>
               n \<notin> fst ` set (activities st') \<and>
               act \<notin> fst ` set (State.its st') \<and> n \<notin> snd ` set (State.its st') \<and>
               (\<forall>t. act \<notin> fst ` set (ActivitiesByType.its (activitiesByType st' t)) \<and>
                    n \<notin> snd ` set (ActivitiesByType.its (activitiesByType st' t)))))"
proof -
  from assms have wf: "wfState st"
    using reachableUnique_reachable reachable_wfState by blast
  from assms have inv: "indexInv st"
    by (rule reachableUnique_indexInv)
  have 1: "\<forall>ni \<in> set (activities st). \<exists>a.
            (\<forall>a'. (a', fst ni) \<in> set (State.its st) \<longleftrightarrow> a' = a) \<and>
            (\<forall>t a'. (a', fst ni) \<in> set (ActivitiesByType.its (activitiesByType st t))
                \<longleftrightarrow> t = type (snd ni) \<and> a' = a)"
    using unit_in_both_indices [OF wf inv] by blast
  have 2: "\<forall>an \<in> set (State.its st). snd an \<in> fst ` set (activities st)"
    by (rule its_point_into_list [OF wf])
  have 3: "reachableUnique st' \<and>
            (\<exists>i. activities st' = activities st @ [(nextNode st, i)] \<and> type i = ty \<and>
               map_of (State.its st') act = Some (nextNode st) \<and>
               map_of (ActivitiesByType.its (activitiesByType st' ty)) act = Some (nextNode st) \<and>
               (\<forall>a. a \<noteq> act \<longrightarrow> map_of (State.its st') a = map_of (State.its st) a) \<and>
               (\<forall>t a. t \<noteq> ty \<or> a \<noteq> act \<longrightarrow>
                  map_of (ActivitiesByType.its (activitiesByType st' t)) a
                    = map_of (ActivitiesByType.its (activitiesByType st t)) a))"
    if f: "map_of (State.its st) act = None"
      and s: "startActivity env st act lvl ty str flds par = Some (Inr st')"
    for env act lvl ty str flds par st'
  proof
    have "freshId st (StartActivity act lvl ty str flds par)"
      by (simp add: freshId_def f)
    moreover have "apply_event env st (StartActivity act lvl ty str flds par) = Some (Inr st')"
      by (simp add: s)
    ultimately show "reachableUnique st'"
      using assms reachableUnique.stepU by blast
  next
    show "\<exists>i. activities st' = activities st @ [(nextNode st, i)] \<and> type i = ty \<and>
               map_of (State.its st') act = Some (nextNode st) \<and>
               map_of (ActivitiesByType.its (activitiesByType st' ty)) act = Some (nextNode st) \<and>
               (\<forall>a. a \<noteq> act \<longrightarrow> map_of (State.its st') a = map_of (State.its st) a) \<and>
               (\<forall>t a. t \<noteq> ty \<or> a \<noteq> act \<longrightarrow>
                  map_of (ActivitiesByType.its (activitiesByType st' t)) a
                    = map_of (ActivitiesByType.its (activitiesByType st t)) a)"
      by (rule start_registers [OF wf inv f s])
  qed
  have 4: "reachableUnique st' \<and> kinds st' = kinds st \<and> State.its st' = State.its st \<and>
            (\<forall>t. ActivitiesByType.its (activitiesByType st' t)
                   = ActivitiesByType.its (activitiesByType st t))"
    if r: "result env st act rty flds = Inr st'" for env act rty flds st'
  proof
    have "freshId st (Result act rty flds)"
      by (simp add: freshId_def)
    moreover have "apply_event env st (Result act rty flds) = Some (Inr st')"
      by (simp add: r)
    ultimately show "reachableUnique st'"
      using assms reachableUnique.stepU by blast
  next
    show "kinds st' = kinds st \<and> State.its st' = State.its st \<and>
            (\<forall>t. ActivitiesByType.its (activitiesByType st' t)
                   = ActivitiesByType.its (activitiesByType st t))"
      by (rule result_keeps_indices [OF wf r])
  qed
  have 5: "\<exists>st'. stopActivity st act = Inr st' \<and> reachableUnique st' \<and>
               activities st' = filter (\<lambda>mi. fst mi \<noteq> n) (activities st) \<and>
               State.its st' = erase act (State.its st) \<and>
               n \<notin> fst ` set (activities st') \<and>
               act \<notin> fst ` set (State.its st') \<and> n \<notin> snd ` set (State.its st') \<and>
               (\<forall>t. act \<notin> fst ` set (ActivitiesByType.its (activitiesByType st' t)) \<and>
                    n \<notin> snd ` set (ActivitiesByType.its (activitiesByType st' t)))"
    if n: "map_of (State.its st) act = Some n" for act n
  proof -
    from stopped_unit_in_no_index [OF wf inv n] obtain st' where
      s: "stopActivity st act = Inr st'" and
      rest: "n \<notin> fst ` set (activities st')"
        "act \<notin> fst ` set (State.its st')" "n \<notin> snd ` set (State.its st')"
        "\<forall>t. act \<notin> fst ` set (ActivitiesByType.its (activitiesByType st' t)) \<and>
             n \<notin> snd ` set (ActivitiesByType.its (activitiesByType st' t))"
      by blast
    have "freshId st (StopActivity act)"
      by (simp add: freshId_def)
    moreover have "apply_event (undefined :: Env) st (StopActivity act) = Some (Inr st')"
      by (simp add: s)
    ultimately have ru: "reachableUnique st'"
      using assms reachableUnique.stepU by blast
    from stopActivity_shape [OF s n] have
      "activities st' = filter (\<lambda>mi. fst mi \<noteq> n) (activities st)"
      "State.its st' = erase act (State.its st)"
      by blast+
    with s ru rest show ?thesis by blast
  qed
  from 1 2 3 4 5 show ?thesis by blast
qed

text \<open>
  The witness opens five units of five types, then starts a sixth and closes the second.
\<close>

theorem open_units_indexed_witness:
  "case run exampleEnv (newState exampleEnv True)
          [StartActivity 1 0 actBuilds [] [] 0,
           StartActivity 2 0 actCopyPath [] [] 1,
           StartActivity 3 0 actFileTransfer [] [tString ''https://cache/nar/1.nar''] 2,
           StartActivity 4 0 actBuild [] [tString ''/nix/store/abc-foo.drv'', tString [], tInt 1, tInt 1] 1,
           StartActivity 5 0 actSubstitute [] [tString ''/nix/store/abc-bar'', tString ''https://cache''] 1,
           Result 2 resProgress [tInt 10, tInt 40, tInt 0, tInt 0]] of
     Some (Inr st) \<Rightarrow>
       reachableUnique st \<and>
       State.its st = [(1, 0), (2, 1), (3, 2), (4, 3), (5, 4)] \<and>
       kinds st = [(0, actBuilds), (1, actCopyPath), (2, actFileTransfer), (3, actBuild),
                   (4, actSubstitute)] \<and>
       map (\<lambda>t. ActivitiesByType.its (activitiesByType st t))
           [actUnknown, actCopyPath, actFileTransfer, actCopyPaths, actBuilds, actBuild,
            actSubstitute, actQueryPathInfo, actPostBuildHook, actBuildWaiting, actEvaluate]
         = [[], [(2, 1)], [(3, 2)], [], [(1, 0)], [(4, 3)], [(5, 4)], [], [], [], []] \<and>
       (case startActivity exampleEnv st 6 0 actQueryPathInfo []
               [tString ''/nix/store/abc-bar'', tString ''https://cache''] 5 of
          Some (Inr st') \<Rightarrow>
            reachableUnique st' \<and>
            State.its st' = [(1, 0), (2, 1), (3, 2), (4, 3), (5, 4), (6, 5)] \<and>
            kinds st' = kinds st @ [(5, actQueryPathInfo)] \<and>
            ActivitiesByType.its (activitiesByType st' actQueryPathInfo) = [(6, 5)]
        | _ \<Rightarrow> False) \<and>
       (case stopActivity st 2 of
          Inr st' \<Rightarrow>
            reachableUnique st' \<and>
            State.its st' = [(1, 0), (3, 2), (4, 3), (5, 4)] \<and>
            kinds st' = [(0, actBuilds), (2, actFileTransfer), (3, actBuild), (4, actSubstitute)] \<and>
            map (\<lambda>t. ActivitiesByType.its (activitiesByType st' t))
                [actUnknown, actCopyPath, actFileTransfer, actCopyPaths, actBuilds, actBuild,
                 actSubstitute, actQueryPathInfo, actPostBuildHook, actBuildWaiting, actEvaluate]
              = [[], [], [(3, 2)], [], [(1, 0)], [(4, 3)], [(5, 4)], [], [], [], []]
        | Inl _ \<Rightarrow> False)
   | _ \<Rightarrow> False"
proof -
  let ?evs = "[StartActivity 1 0 actBuilds [] [] 0,
           StartActivity 2 0 actCopyPath [] [] 1,
           StartActivity 3 0 actFileTransfer [] [tString ''https://cache/nar/1.nar''] 2,
           StartActivity 4 0 actBuild [] [tString ''/nix/store/abc-foo.drv'', tString [], tInt 1, tInt 1] 1,
           StartActivity 5 0 actSubstitute [] [tString ''/nix/store/abc-bar'', tString ''https://cache''] 1,
           Result 2 resProgress [tInt 10, tInt 40, tInt 0, tInt 0]]"
  let ?st = "projr (the (run exampleEnv (newState exampleEnv True) ?evs))"
  let ?f = "[tString ''/nix/store/abc-bar'', tString ''https://cache'']"
  let ?st6 = "projr (the (startActivity exampleEnv ?st 6 0 actQueryPathInfo [] ?f 5))"
  let ?st2 = "projr (stopActivity ?st 2)"
  have r: "run exampleEnv (newState exampleEnv True) ?evs = Some (Inr ?st)"
    by (simp add: eval_defs hasAncestor.simps)
  have f: "freshRun exampleEnv (newState exampleEnv True) ?evs"
    by (simp add: eval_defs hasAncestor.simps freshId_def)
  have ru: "reachableUnique ?st"
    by (rule run_reachableUnique [OF r f reachableUnique.initU])
  have m6: "map_of (State.its ?st) 6 = None" and m2: "map_of (State.its ?st) 2 = Some 1"
    by (simp_all add: eval_defs hasAncestor.simps)
  have s6: "startActivity exampleEnv ?st 6 0 actQueryPathInfo [] ?f 5 = Some (Inr ?st6)"
    by (simp add: eval_defs hasAncestor.simps)
  note T = open_units_indexed [OF ru]
  from T [THEN conjunct2, THEN conjunct2, THEN conjunct1] m6 s6
  have ru6: "reachableUnique ?st6"
    by blast
  from T [THEN conjunct2, THEN conjunct2, THEN conjunct2, THEN conjunct2] m2
  obtain st' where "stopActivity ?st 2 = Inr st'" "reachableUnique st'"
    by blast
  then have ru2: "reachableUnique ?st2"
    by simp
  from ru ru6 ru2 show ?thesis
    by (simp add: eval_defs hasAncestor.simps kinds_def)
qed

subsection \<open>The walk up the parents\<close>

lemma setNode_setNode [simp]: "setNode n i (setNode n j st) = setNode n i st"
proof -
  have "(\<lambda>mi. if fst mi = n then (n, i) else mi) \<circ> (\<lambda>mi. if fst mi = n then (n, j) else mi)
          = (\<lambda>mi. if fst mi = n then (n, i) else mi)"
    by (rule ext) simp
  then show ?thesis by (simp add: setNode_def)
qed

text \<open>The state in which \<^verbatim>\<open>startActivity\<close> walks: the old nodes are as before.\<close>

lemma started_lookup:
  shows "map_of (State.its (insertNode act ty i0 st)) a
           = (if a = act \<and> map_of (State.its st) act = None then Some (nextNode st)
              else map_of (State.its st) a)"
  by (simp add: insertNode_def Let_def map_of_emplace)

lemma started_deref_old:
  assumes wf: "wfState st" and d: "deref st n = Inr j"
  shows "deref (setNode (nextNode st) i (insertNode act ty i0 st)) n = Inr j"
proof -
  have lt: "\<forall>ni \<in> set (activities st). fst ni < nextNode st"
    using wf_nodes_lt [OF wf] by blast
  from d have "map_of (activities st) n = Some j"
    by (simp add: deref_def split: option.splits)
  then show ?thesis
    by (simp add: deref_def start_components(1) [OF lt] map_add_def)
qed

lemma walk_ends:
  assumes wf: "wfState st" and c: "parentChainEnds st act a"
  shows "\<exists>b. hasAncestor (setNode (nextNode st) i (insertNode act ty i0 st)) t a = Some (Inr b)"
  using c
proof (induction rule: parentChainEnds.induct)
  case root
  have "hasAncestor (setNode (nextNode st) i (insertNode act ty i0 st)) t 0 = Some (Inr False)"
    by (subst hasAncestor.simps) simp
  then show ?case by blast
next
  case (closed a)
  then have "hasAncestor (setNode (nextNode st) i (insertNode act ty i0 st)) t a = Some (Inr False)"
    by (subst hasAncestor.simps) (simp add: started_lookup)
  then show ?case by blast
next
  case (up a n j)
  from up.hyps(2) have l: "map_of (State.its (insertNode act ty i0 st)) a = Some n"
    by (auto simp: started_lookup)
  note d = started_deref_old [OF wf up.hyps(3), of i act ty i0]
  from up.IH obtain b where
    b: "hasAncestor (setNode (nextNode st) i (insertNode act ty i0 st)) t (parent j) = Some (Inr b)"
    by blast
  have "hasAncestor (setNode (nextNode st) i (insertNode act ty i0 st)) t a
          = Some (Inr (if type j = t then True else b))"
    by (subst hasAncestor.simps) (simp add: up.hyps(1) l d b)
  then show ?case by blast
qed



lemma deref_log [simp]: "deref (log st) n = deref st n"
  by (simp add: deref_def)

lemma parentChainEnds_log:
  "parentChainEnds st act a \<Longrightarrow> parentChainEnds (log st) act a"
proof (induction rule: parentChainEnds.induct)
  case root
  show ?case by (rule parentChainEnds.root)
next
  case (closed a)
  then show ?case by (simp add: parentChainEnds.closed)
next
  case (up a n i)
  show ?case
    by (rule parentChainEnds.up [of a _ n i]) (simp_all add: up)
qed


lemma blocks_return:
  assumes "fieldsOk ty flds"
  shows "\<exists>i'. blockBuild env ty flds i = Inr i'"
    and "\<exists>i'. blockSubstitute env ty flds i = Inr i'"
    and "\<exists>i'. blockPostBuildHook env ty flds i = Inr i'"
    and "\<exists>i'. blockQueryPathInfo env ty flds i = Inr i'"
  using assms
  by (auto simp: fieldsOk_def isString_def isInt_def blockBuild_def blockSubstitute_def
        blockPostBuildHook_def blockQueryPathInfo_def Let_def split: sum.splits)

lemma blockFileTransfer_returns:
  assumes wf: "wfState st" and ok: "fieldsOk ty flds"
    and c: "ty = actFileTransfer \<longrightarrow> parentChainEnds st act par"
  shows "\<exists>i'. blockFileTransfer (setNode (nextNode st) i (insertNode act ty i0 st))
                 (nextNode st) ty flds par i = Some (Inr i')"
proof (cases "ty = actFileTransfer")
  case False
  then show ?thesis by (simp add: blockFileTransfer_def)
next
  case True
  with ok obtain x where x: "getS flds 0 = Inr x"
    by (auto simp: fieldsOk_def isString_def split: sum.splits)
  from True c have ch: "parentChainEnds st act par" by simp
  from walk_ends [OF wf ch, of "i\<lparr>s := x\<rparr>" ty i0 actCopyPath] obtain b1 where
    b1: "hasAncestor (setNode (nextNode st) (i\<lparr>s := x\<rparr>) (insertNode act ty i0 st)) actCopyPath par
           = Some (Inr b1)" by blast
  from walk_ends [OF wf ch, of "i\<lparr>s := x\<rparr>" ty i0 actQueryPathInfo] obtain b2 where
    b2: "hasAncestor (setNode (nextNode st) (i\<lparr>s := x\<rparr>) (insertNode act ty i0 st)) actQueryPathInfo par
           = Some (Inr b2)" by blast
  show ?thesis
    using b1 b2 by (cases b1; cases b2) (simp_all add: blockFileTransfer_def True x Let_def)
qed

lemma blockVisible_returns:
  assumes wf: "wfState st"
    and c: "ty = actCopyPath \<longrightarrow> parentChainEnds st act par"
  shows "\<exists>i'. blockVisible (setNode (nextNode st) i (insertNode act ty i0 st)) ty par i
                 = Some (Inr i')"
proof (cases "ty = actCopyPath")
  case False
  then show ?thesis by (simp add: blockVisible_def)
next
  case True
  with c have ch: "parentChainEnds st act par" by simp
  from walk_ends [OF wf ch, of i ty i0 actSubstitute] obtain b where
    b: "hasAncestor (setNode (nextNode st) i (insertNode act ty i0 st)) actSubstitute par
           = Some (Inr b)" by blast
  show ?thesis
    using b by (cases b) (simp_all add: blockVisible_def True)
qed

lemma startActivity_returns_from:
  assumes wf: "wfState st1" and ok: "fieldsOk ty flds"
    and c: "ty = actFileTransfer \<or> ty = actCopyPath \<longrightarrow> parentChainEnds st1 act par"
  shows "\<exists>i. (case blockBuild env ty flds i0 of Inl e \<Rightarrow> Some (Inl e) | Inr i1 \<Rightarrow>
         (case blockSubstitute env ty flds i1 of Inl e \<Rightarrow> Some (Inl e) | Inr i2 \<Rightarrow>
         (case blockPostBuildHook env ty flds i2 of Inl e \<Rightarrow> Some (Inl e) | Inr i3 \<Rightarrow>
         (case blockQueryPathInfo env ty flds i3 of Inl e \<Rightarrow> Some (Inl e) | Inr i4 \<Rightarrow>
         (case blockFileTransfer (setNode (nextNode st1) i4 (insertNode act ty i0 st1)) (nextNode st1) ty flds par i4 of
            None \<Rightarrow> None | Some (Inl e) \<Rightarrow> Some (Inl e) | Some (Inr i5) \<Rightarrow>
         (case blockVisible (setNode (nextNode st1) i5 (insertNode act ty i0 st1)) ty par i5 of
            None \<Rightarrow> None | Some (Inl e) \<Rightarrow> Some (Inl e) | Some (Inr i6) \<Rightarrow>
            Some (Inr (update (setNode (nextNode st1)
               (if ty = actBuild then i6\<lparr>startTime := Some (now env)\<rparr> else i6)
               (insertNode act ty i0 st1)))))))))) = Some (Inr (update (setNode (nextNode st1) i (insertNode act ty i0 st1))))"
proof -
  from blocks_return(1) [OF ok] obtain i1 where 1: "blockBuild env ty flds i0 = Inr i1" by blast
  from blocks_return(2) [OF ok] obtain i2 where 2: "blockSubstitute env ty flds i1 = Inr i2" by blast
  from blocks_return(3) [OF ok] obtain i3 where 3: "blockPostBuildHook env ty flds i2 = Inr i3" by blast
  from blocks_return(4) [OF ok] obtain i4 where 4: "blockQueryPathInfo env ty flds i3 = Inr i4" by blast
  from blockFileTransfer_returns [OF wf ok, of act par i4 i0] c obtain i5 where
    5: "blockFileTransfer (setNode (nextNode st1) i4 (insertNode act ty i0 st1)) (nextNode st1) ty flds par i4 = Some (Inr i5)"
    by blast
  from blockVisible_returns [OF wf, of ty act par i5 i0] c obtain i6 where
    6: "blockVisible (setNode (nextNode st1) i5 (insertNode act ty i0 st1)) ty par i5 = Some (Inr i6)"
    by blast
  show ?thesis
    by (simp add: 1 2 3 4 5 6) blast
qed

lemma startActivity_returns:
  assumes wf: "wfState st" and ok: "fieldsOk ty flds"
    and c: "ty = actFileTransfer \<or> ty = actCopyPath \<longrightarrow> parentChainEnds st act par"
  shows "\<exists>st'. startActivity env st act lvl ty str flds par = Some (Inr st')"
proof -
  let ?st1 = "if lvl \<le> verbosity env \<and> str \<noteq> [] \<and> ty \<noteq> actBuildWaiting then log st else st"
  have wf1: "wfState ?st1" using wf by simp
  have c1: "ty = actFileTransfer \<or> ty = actCopyPath \<longrightarrow> parentChainEnds ?st1 act par"
    using c parentChainEnds_log by simp
  from startActivity_returns_from [OF wf1 ok c1, of env "newActInfo\<lparr>s := str, type := ty, parent := par\<rparr>"]
  show ?thesis
    unfolding startActivity_def Let_def by blast
qed


lemma started_deref_new:
  assumes wf: "wfState st"
  shows "deref (setNode (nextNode st) i (insertNode act ty i0 st)) (nextNode st) = Inr i"
proof -
  have lt: "\<forall>ni \<in> set (activities st). fst ni < nextNode st"
    using wf_nodes_lt [OF wf] by blast
  then have "nextNode st \<notin> fst ` set (activities st)" by force
  then have "map_of (activities st) (nextNode st) = None"
    by (simp add: map_of_eq_None_iff)
  then show ?thesis
    by (simp add: deref_def start_components(1) [OF lt] map_add_def)
qed

lemma hasAncestor_self_parent_aux:
  assumes "hasAncestor st t a = Some y"
  shows "\<not> (a \<noteq> 0 \<and> (\<exists>n i. map_of (State.its st) a = Some n \<and> deref st n = Inr i \<and>
                               type i \<noteq> t \<and> parent i = a))"
proof (rule hasAncestor.raw_induct
    [where P = "\<lambda>st t a y. \<not> (a \<noteq> 0 \<and> (\<exists>n i. map_of (State.its st) a = Some n \<and>
                  deref st n = Inr i \<and> type i \<noteq> t \<and> parent i = a))", OF _ assms])
  fix f :: "State \<Rightarrow> ActivityType \<Rightarrow> ActivityId \<Rightarrow> (error + bool) option"
    and st t a y
  assume IH: "\<And>st t a y. f st t a = Some y \<Longrightarrow>
      \<not> (a \<noteq> 0 \<and> (\<exists>n i. map_of (State.its st) a = Some n \<and> deref st n = Inr i \<and>
                               type i \<noteq> t \<and> parent i = a))"
    and eq: "(if a \<noteq> 0
      then case map_of (State.its st) a of None \<Rightarrow> Some (Inr False)
           | Some n \<Rightarrow>
               case deref st n of Inl e \<Rightarrow> Some (Inl e)
               | Inr i \<Rightarrow>
                   if type i = t then Some (Inr True)
                   else f st t (parent i)
      else Some (Inr False)) = Some y"
  show "\<not> (a \<noteq> 0 \<and> (\<exists>n i. map_of (State.its st) a = Some n \<and> deref st n = Inr i \<and>
                               type i \<noteq> t \<and> parent i = a))"
  proof
    assume "a \<noteq> 0 \<and> (\<exists>n i. map_of (State.its st) a = Some n \<and> deref st n = Inr i \<and>
                               type i \<noteq> t \<and> parent i = a)"
    then obtain n i where l: "a \<noteq> 0" "map_of (State.its st) a = Some n" "deref st n = Inr i"
      "type i \<noteq> t" "parent i = a" by blast
    from eq l have "f st t a = Some y" by simp
    from IH [OF this] l show False by blast
  qed
qed

lemma hasAncestor_self_parent:
  assumes "a \<noteq> 0" "map_of (State.its st) a = Some n" "deref st n = Inr i"
    "type i \<noteq> t" "parent i = a"
  shows "hasAncestor st t a = None"
proof (cases "hasAncestor st t a")
  case None
  then show ?thesis .
next
  case (Some y)
  from hasAncestor_self_parent_aux [OF Some] assms show ?thesis by blast
qed

lemma startActivity_self_parent_from:
  assumes wf: "wfState st1" and a: "act \<noteq> 0" and f: "map_of (State.its st1) act = None"
    and x: "getS flds 0 = Inr x" and i0: "type i0 = actFileTransfer" "parent i0 = act"
  shows "blockFileTransfer (setNode (nextNode st1) i0 (insertNode act actFileTransfer i0 st1))
           (nextNode st1) actFileTransfer flds act i0 = None"
proof -
  have l: "map_of (State.its (setNode (nextNode st1) (i0\<lparr>s := x\<rparr>) (insertNode act actFileTransfer i0 st1))) act
             = Some (nextNode st1)"
    using f by (simp add: started_lookup)
  have "hasAncestor (setNode (nextNode st1) (i0\<lparr>s := x\<rparr>) (insertNode act actFileTransfer i0 st1))
          actCopyPath act = None"
    by (rule hasAncestor_self_parent [OF a l started_deref_new [OF wf]]) (simp_all add: i0)
  then show ?thesis
    by (simp add: blockFileTransfer_def x Let_def)
qed

lemma startActivity_self_parent:
  assumes wf: "wfState st" and a: "act \<noteq> 0" and f: "map_of (State.its st) act = None"
    and x: "isString flds 0"
  shows "startActivity env st act lvl actFileTransfer str flds act = None"
proof -
  let ?st1 = "if lvl \<le> verbosity env \<and> str \<noteq> [] then log st else st"
  let ?i0 = "newActInfo\<lparr>s := str, type := actFileTransfer, parent := act\<rparr>"
  have wf1: "wfState ?st1" using wf by simp
  have f1: "map_of (State.its ?st1) act = None" using f by simp
  from x obtain y where y: "getS flds 0 = Inr y"
    by (auto simp: isString_def split: sum.splits)
  have "blockFileTransfer (setNode (nextNode ?st1) ?i0 (insertNode act actFileTransfer ?i0 ?st1))
           (nextNode ?st1) actFileTransfer flds act ?i0 = None"
    by (rule startActivity_self_parent_from [OF wf1 a f1 y]) simp_all
  then show ?thesis
    by (simp add: startActivity_def Let_def blockBuild_def blockSubstitute_def
          blockPostBuildHook_def blockQueryPathInfo_def)
qed

subsection \<open>Calls that return, and the dirty flag\<close>

lemma result_returns:
  assumes wf: "wfState st" and o: "map_of (State.its st) act \<noteq> None"
    and ok: "resultFieldsOk rty flds"
  shows "\<exists>st'. result env st act rty flds = Inr st'"
proof -
  from o obtain n where n: "map_of (State.its st) act = Some n" by blast
  from wf_its_deref [OF wf n] obtain i where i: "deref st n = Inr i" by blast
  show ?thesis
    using ok
    by (cases rty)
       (auto simp: result_def n i Let_def resultFieldsOk_def isString_def isInt_def
             split: sum.splits)
qed

lemma result_logline_empty:
  assumes "result env state act rty flds = Inr state'"
    and "rty \<in> {resBuildLogLine, resPostBuildLogLine}"
    and "getS flds 0 = Inr line" and "chomp line = []"
  shows "state' = state"
  using assms
  by (auto simp: result_def Let_def split: sum.splits option.splits if_splits)

lemma result_logline_printed:
  assumes "result env state act rty flds = Inr state'"
    and "rty \<in> {resBuildLogLine, resPostBuildLogLine}"
    and "getS flds 0 = Inr line" and "chomp line \<noteq> []" and "printBuildLogs env"
  shows "updateCV_notified state' = updateCV_notified state"
  using assms
  by (auto simp: result_def Let_def split: sum.splits option.splits if_splits)

lemma result_ignored_unchanged:
  assumes "result env state act rty flds = Inr state'"
    and "rty \<in> {resProgress, resSetExpected}"
    and "map_of (State.its state) act = Some n" and "deref state n = Inr i" and "ignored i"
  shows "state' = state"
  using assms
  by (auto simp: result_def Let_def split: sum.splits option.splits if_splits)

text \<open>
  C4 (as amended).  \<^verbatim>\<open>startActivity\<close>, whenever it returns, has ended with \<^verbatim>\<open>update\<close>: the
  dirty flag is set and the redraw condition is signalled once.  In a state that a
  sequence of calls has reached it does return when the fields are those that the type
  reads and, for a file transfer or a copy, the chain of parents ends; it does not
  return for a file transfer under an id that is not zero and not open and that names
  itself as parent.  \<^verbatim>\<open>stopActivity\<close> returns in every such state, and has then set the
  flag and signalled once.  \<^verbatim>\<open>result\<close> returns in every such state for an open id and
  fields that the result type reads.  When it returns it has set the flag and signalled
  once for file-linked, untrusted-path, corrupted-path and set-phase, for progress and
  set-expected on a unit that is not ignored, and for a log line that is not empty after
  \<^verbatim>\<open>chomp\<close> when build logs are not printed.  It leaves the state as it was for progress
  and set-expected on an ignored unit and for a log line that is empty after \<^verbatim>\<open>chomp\<close>;
  it does not signal for a log line when build logs are printed; and the four
  pending-build and pending-substitution results change the unit's sets only: they leave
  the dirty flag as it was and do not signal.
\<close>

theorem mutations_mark_dirty:
  "(startActivity env state act lvl ty str flds par = Some (Inr state') \<longrightarrow>
      haveUpdate state' \<and> updateCV_notified state' = Suc (updateCV_notified state))
   \<and> (reachable state \<and> fieldsOk ty flds \<and>
       (ty = actFileTransfer \<or> ty = actCopyPath \<longrightarrow> parentChainEnds state act par) \<longrightarrow>
      (\<exists>st'. startActivity env state act lvl ty str flds par = Some (Inr st')))
   \<and> (reachable state \<and> act \<noteq> 0 \<and> map_of (State.its state) act = None \<and> isString flds 0 \<longrightarrow>
      startActivity env state act lvl actFileTransfer str flds act = None)
   \<and> (stopActivity state act = Inr state' \<longrightarrow>
      haveUpdate state' \<and> updateCV_notified state' = Suc (updateCV_notified state))
   \<and> (reachable state \<longrightarrow> (\<exists>st'. stopActivity state act = Inr st'))
   \<and> (reachable state \<and> map_of (State.its state) act \<noteq> None \<and> resultFieldsOk rty flds \<longrightarrow>
      (\<exists>st'. result env state act rty flds = Inr st'))
   \<and> (result env state act rty flds = Inr state' \<and>
       rty \<in> {resFileLinked, resUntrustedPath, resCorruptedPath, resSetPhase} \<longrightarrow>
      haveUpdate state' \<and> updateCV_notified state' = Suc (updateCV_notified state))
   \<and> (result env state act rty flds = Inr state' \<and> rty \<in> {resProgress, resSetExpected} \<and>
       map_of (State.its state) act = Some n \<and> deref state n = Inr i \<and> \<not> ignored i \<longrightarrow>
      haveUpdate state' \<and> updateCV_notified state' = Suc (updateCV_notified state))
   \<and> (result env state act rty flds = Inr state' \<and> rty \<in> {resProgress, resSetExpected} \<and>
       map_of (State.its state) act = Some n \<and> deref state n = Inr i \<and> ignored i \<longrightarrow>
      state' = state)
   \<and> (result env state act rty flds = Inr state' \<and>
       rty \<in> {resBuildLogLine, resPostBuildLogLine} \<and>
       getS flds 0 = Inr line \<and> chomp line \<noteq> [] \<and> \<not> printBuildLogs env \<longrightarrow>
      haveUpdate state' \<and> updateCV_notified state' = Suc (updateCV_notified state))
   \<and> (result env state act rty flds = Inr state' \<and>
       rty \<in> {resBuildLogLine, resPostBuildLogLine} \<and>
       getS flds 0 = Inr line \<and> chomp line \<noteq> [] \<and> printBuildLogs env \<longrightarrow>
      updateCV_notified state' = updateCV_notified state)
   \<and> (result env state act rty flds = Inr state' \<and>
       rty \<in> {resBuildLogLine, resPostBuildLogLine} \<and>
       getS flds 0 = Inr line \<and> chomp line = [] \<longrightarrow>
      state' = state)
   \<and> (result env state act rty flds = Inr state' \<and>
       rty \<in> {resExpectBuild, resUnexpectBuild, resExpectSubstitution,
              resUnexpectSubstitution} \<longrightarrow>
      haveUpdate state' = haveUpdate state \<and>
      updateCV_notified state' = updateCV_notified state)"
  apply (intro conjI)
  subgoal using startActivity_dirty [of env state act lvl ty str flds par state'] by blast
  subgoal using startActivity_returns [OF reachable_wfState, of state ty flds act par env lvl str] by blast
  subgoal using startActivity_self_parent [OF reachable_wfState, of state act flds env lvl str] by blast
  subgoal using stopActivity_dirty [of state act state'] by blast
  subgoal using stopActivity_returns [OF reachable_wfState, of state act] by blast
  subgoal using result_returns [OF reachable_wfState, of state act rty flds env] by blast
  subgoal using result_dirty_plain [of env state act rty flds state'] by blast
  subgoal using result_dirty_counters [of env state act rty flds state' n i] by blast
  subgoal using result_ignored_unchanged [of env state act rty flds state' n i] by blast
  subgoal using result_dirty_logline [of env state act rty flds state' line] by blast
  subgoal using result_logline_printed [of env state act rty flds state' line] by blast
  subgoal using result_logline_empty [of env state act rty flds state' line] by blast
  subgoal using result_pending_not_dirty [of env state act rty flds state'] by blast
  done

text \<open>
  The witness takes the state with unit \<open>1\<close> open after a redraw has cleared the dirty
  flag: a progress result for that unit, the start of a file transfer below it and its
  closing each set the flag and signal once, and a file transfer that names itself as
  parent does not return.
\<close>

theorem mutations_mark_dirty_witness:
  "\<exists>st. run exampleEnv (newState exampleEnv True)
           [StartActivity 1 0 actBuilds ''building'' [] 0, Draw] = Some (Inr st) \<and>
        reachable st \<and> \<not> haveUpdate st \<and>
        (case result exampleEnv st 1 resProgress [tInt 1, tInt 4, tInt 2, tInt 0] of
           Inr st' \<Rightarrow> haveUpdate st' \<and> updateCV_notified st' = Suc (updateCV_notified st)
         | Inl _ \<Rightarrow> False) \<and>
        (case startActivity exampleEnv st 2 0 actFileTransfer [] [tString ''https://cache/nar/1.nar''] 1 of
           Some (Inr st') \<Rightarrow> haveUpdate st' \<and> updateCV_notified st' = Suc (updateCV_notified st)
         | _ \<Rightarrow> False) \<and>
        startActivity exampleEnv st 2 0 actFileTransfer [] [tString ''https://cache/nar/1.nar''] 2 = None \<and>
        (case stopActivity st 1 of
           Inr st' \<Rightarrow> haveUpdate st' \<and> updateCV_notified st' = Suc (updateCV_notified st)
         | Inl _ \<Rightarrow> False)"
proof -
  let ?evs = "[StartActivity 1 0 actBuilds ''building'' [] 0, Draw]"
  let ?st = "projr (the (run exampleEnv (newState exampleEnv True) ?evs))"
  let ?url = "[tString ''https://cache/nar/1.nar'']"
  let ?prog = "[tInt 1, tInt 4, tInt 2, tInt 0]"
  let ?i = "projr (deref ?st 0)"
  have r: "run exampleEnv (newState exampleEnv True) ?evs = Some (Inr ?st)"
    by (simp add: eval_defs)
  have re: "reachable ?st"
    by (rule run_reachable [OF r reachable.init])
  have m1: "map_of (State.its ?st) 1 = Some 0" and m2: "map_of (State.its ?st) 2 = None"
    and d0: "deref ?st 0 = Inr ?i" and ni: "\<not> ignored ?i" and p0: "parent ?i = 0"
    and 1: "\<not> haveUpdate ?st"
    by (simp_all add: eval_defs)
  have c: "parentChainEnds ?st 2 1"
    by (rule parentChainEnds.up [OF _ m1 d0]) (simp, simp only: p0, rule parentChainEnds.root)
  have fo: "fieldsOk actFileTransfer ?url" "isString ?url 0" "resultFieldsOk resProgress ?prog"
    by (simp_all add: fieldsOk_def resultFieldsOk_def isString_def isInt_def getS_def getI_def)
  have nz: "(2::ActivityId) \<noteq> 0" by simp
  from mutations_mark_dirty [of exampleEnv ?st 1 _ _ _ ?prog _ _ resProgress, THEN conjunct2, THEN conjunct2, THEN conjunct2, THEN conjunct2, THEN conjunct2, THEN conjunct1] re m1 fo(3)
  obtain st2 where s2: "result exampleEnv ?st 1 resProgress ?prog = Inr st2"
    by blast
  from mutations_mark_dirty [of exampleEnv ?st 1 _ _ _ ?prog _ st2 resProgress 0 ?i, THEN conjunct2, THEN conjunct2, THEN conjunct2, THEN conjunct2, THEN conjunct2, THEN conjunct2, THEN conjunct2, THEN conjunct1]
    s2 m1 d0 ni
  have 2: "haveUpdate st2 \<and> updateCV_notified st2 = Suc (updateCV_notified ?st)"
    by blast
  from mutations_mark_dirty [of exampleEnv ?st 2 0 actFileTransfer "[]" ?url 1, THEN conjunct2, THEN conjunct1] re fo(1) c
  obtain st3 where s3: "startActivity exampleEnv ?st 2 0 actFileTransfer [] ?url 1 = Some (Inr st3)"
    by blast
  from mutations_mark_dirty [of exampleEnv ?st 2 0 actFileTransfer "[]" ?url 1 st3, THEN conjunct1] s3
  have 3: "haveUpdate st3 \<and> updateCV_notified st3 = Suc (updateCV_notified ?st)"
    by blast
  from mutations_mark_dirty [of exampleEnv ?st 2 0 _ "[]" ?url, THEN conjunct2, THEN conjunct2, THEN conjunct1] re nz m2 fo(2)
  have 4: "startActivity exampleEnv ?st 2 0 actFileTransfer [] ?url 2 = None"
    by blast
  from mutations_mark_dirty [of _ ?st 1, THEN conjunct2, THEN conjunct2, THEN conjunct2, THEN conjunct2, THEN conjunct1] re
  obtain st5 where s5: "stopActivity ?st 1 = Inr st5"
    by blast
  from mutations_mark_dirty [of _ ?st 1 _ _ _ _ _ st5, THEN conjunct2, THEN conjunct2, THEN conjunct2, THEN conjunct1] s5
  have 5: "haveUpdate st5 \<and> updateCV_notified st5 = Suc (updateCV_notified ?st)"
    by blast
  show ?thesis
    apply (rule exI [of _ ?st])
    apply (simp only: s2 s3 s5 option.case sum.case)
    using r re 1 2 3 4 5 by blast
qed

text \<open>
  C4 (as stated) fails: after a redraw has cleared the dirty flag, a pending-build result
  for the open unit \<open>1\<close> adds the path to the unit's set and returns with the flag still
  clear and no signal sent.
\<close>

theorem mutations_mark_dirty_counterexample:
  "case run exampleEnv (newState exampleEnv True) [StartActivity 1 0 actBuilds ''building'' [] 0, Draw] of
     Some (Inr st) \<Rightarrow>
       (case result exampleEnv st 1 resExpectBuild [tString ''/nix/store/a-b.drv''] of
          Inr st' \<Rightarrow>
            map_option buildsRemaining (map_of (activities st') 0)
              = Some {''/nix/store/a-b.drv''} \<and>
            \<not> haveUpdate st' \<and> updateCV_notified st' = updateCV_notified st
        | Inl _ \<Rightarrow> False)
   | _ \<Rightarrow> False"
  by (simp add: eval_defs)

subsection \<open>Ignored file transfers\<close>















end
